theory Spec2Isabelle
  imports Complex_Main "HOL-Library.Log_Nat" "HOL-Library.Multiset"
begin

section \<open>Data model (app/models.py)\<close>

text \<open>
  A \<open>SceneElement\<close> is a Python dataclass with four fields. Objects of the class are
  mutable and shared between the element list of a scene and the entries of its undo
  history, so they live in an explicit store: a reference is an index into the list of
  all objects allocated so far, and allocation appends to that list.
\<close>

type_synonym point = "int \<times> int"
type_synonym rgb = "int \<times> int \<times> int"

record SceneElement =
  kind :: string
  points :: "point list"
  color :: rgb
  radius :: int

type_synonym ref = nat
type_synonym store = "SceneElement list"

text \<open>
  The dataclass decorator generates \<open>__eq__\<close>, which compares the four fields. Python's
  \<open>x in xs\<close> and \<open>xs.remove(x)\<close> compare each item with \<open>is\<close> first and with \<open>==\<close>
  second, so two distinct objects with equal fields are the same to them.
\<close>

definition elem_eq :: "store \<Rightarrow> ref \<Rightarrow> ref \<Rightarrow> bool" where
  "elem_eq h a b = (a = b \<or> h ! a = h ! b)"

definition py_in :: "store \<Rightarrow> ref \<Rightarrow> ref list \<Rightarrow> bool" where
  "py_in h el xs = list_ex (\<lambda>x. elem_eq h x el) xs"

text \<open>\<open>xs.remove(el)\<close> deletes the first item that compares equal to \<open>el\<close>. It raises
  ValueError when there is none; every call in the source is guarded by \<open>el in xs\<close>.\<close>

fun py_remove :: "store \<Rightarrow> ref \<Rightarrow> ref list \<Rightarrow> ref list" where
  "py_remove h el [] = []"
| "py_remove h el (x # xs) = (if elem_eq h x el then xs else x # py_remove h el xs)"

section \<open>Colour codec (app/utils.py)\<close>

fun color_to_code :: "rgb \<Rightarrow> int" where
  "color_to_code (r, g, b) =
     (if r \<ge> g \<and> r \<ge> b then 1
      else if g \<ge> r \<and> g \<ge> b then 2
      else 3)"

definition code_to_color :: "int \<Rightarrow> rgb" where
  "code_to_color code =
     (if code = 1 then (255, 0, 0)
      else if code = 2 then (0, 255, 0)
      else (0, 0, 255))"

section \<open>Undo history (app/undo.py)\<close>

record UndoManager =
  undo_list :: "(string \<times> ref) list"
  redo_list :: "(string \<times> ref) list"

definition new_UndoManager :: UndoManager where
  "new_UndoManager = \<lparr>undo_list = [], redo_list = []\<rparr>"

definition push_add :: "UndoManager \<Rightarrow> ref \<Rightarrow> UndoManager" where
  "push_add um el = um\<lparr>undo_list := undo_list um @ [(''add'', el)], redo_list := []\<rparr>"

definition push_remove :: "UndoManager \<Rightarrow> ref \<Rightarrow> UndoManager" where
  "push_remove um el = um\<lparr>undo_list := undo_list um @ [(''remove'', el)], redo_list := []\<rparr>"

text \<open>\<open>UndoManager.undo(elements)\<close> and \<open>UndoManager.redo(elements)\<close> mutate the manager
  and the list they are given; the model returns both. \<open>pop()\<close> takes the last entry.\<close>

definition um_undo :: "store \<Rightarrow> UndoManager \<Rightarrow> ref list \<Rightarrow> UndoManager \<times> ref list" where
  "um_undo h um els =
     (if undo_list um = [] then (um, els)
      else
        let opk = fst (last (undo_list um));
            el = snd (last (undo_list um));
            um1 = um\<lparr>undo_list := butlast (undo_list um)\<rparr>
        in if opk = ''add'' then
             (um1\<lparr>redo_list := redo_list um1 @ [(''add'', el)]\<rparr>,
              if py_in h el els then py_remove h el els else els)
           else if opk = ''remove'' then
             (um1\<lparr>redo_list := redo_list um1 @ [(''remove'', el)]\<rparr>, els @ [el])
           else (um1, els))"

definition um_redo :: "store \<Rightarrow> UndoManager \<Rightarrow> ref list \<Rightarrow> UndoManager \<times> ref list" where
  "um_redo h um els =
     (if redo_list um = [] then (um, els)
      else
        let opk = fst (last (redo_list um));
            el = snd (last (redo_list um));
            um1 = um\<lparr>redo_list := butlast (redo_list um)\<rparr>
        in if opk = ''add'' then
             (um1\<lparr>undo_list := undo_list um1 @ [(''add'', el)]\<rparr>, els @ [el])
           else if opk = ''remove'' then
             (um1\<lparr>undo_list := undo_list um1 @ [(''remove'', el)]\<rparr>,
              if py_in h el els then py_remove h el els else els)
           else (um1, els))"

section \<open>Python strings and numbers\<close>

text \<open>
  The builtins the codecs call, as far as the codecs use them. A string is a list of
  8-bit characters, read as the code points below 256; the case mapping covers the
  ASCII letters, which is all that the tests for \<open>COLOR\<close> and \<open>STOP\<close> depend on among
  these strings. A float is an IEEE binary64 value, represented by the rational it
  denotes (the sign of zero is not kept), or an infinity, or a NaN. Conversions to
  float round to nearest, ties to even; a result beyond the largest double is an
  infinity, or OverflowError where Python raises. Conversions between an int and
  decimal text refuse more than 4300 digits.
\<close>

datatype py_error = ValueError | TypeError | OverflowError | IndexError | ZeroDivisionError

subsection \<open>Strings\<close>

text \<open>The characters that \<open>str.strip\<close> and \<open>str.split\<close> take for white space, by code
  point.\<close>

definition py_isspace :: "char \<Rightarrow> bool" where
  "py_isspace c = (of_char c \<in> {9, 10, 11, 12, 13, 28, 29, 30, 31, 32, 133, 160 :: int})"

text \<open>\<open>int\<close> and \<open>float\<close> skip white space of their own around a number: the ASCII white
  space, and the white space above 127, which they replace by a blank first. The
  separators 28 to 31 are white space for \<open>str.strip\<close> but not for them.\<close>

definition py_numspace :: "char \<Rightarrow> bool" where
  "py_numspace c = (of_char c \<in> {9, 10, 11, 12, 13, 32, 133, 160 :: int})"

text \<open>\<open>s.strip()\<close>.\<close>

definition py_strip :: "string \<Rightarrow> string" where
  "py_strip s = rev (dropWhile py_isspace (rev (dropWhile py_isspace s)))"

definition num_strip :: "string \<Rightarrow> string" where
  "num_strip s = rev (dropWhile py_numspace (rev (dropWhile py_numspace s)))"

text \<open>\<open>s.upper()\<close>, and the lower-casing that \<open>float\<close> applies to \<open>inf\<close> and \<open>nan\<close>.\<close>

definition py_upper_char :: "char \<Rightarrow> char" where
  "py_upper_char c =
     (if of_char CHR ''a'' \<le> (of_char c :: int) \<and> (of_char c :: int) \<le> of_char CHR ''z''
      then char_of (of_char c - (32::int)) else c)"

definition py_upper :: "string \<Rightarrow> string" where
  "py_upper s = map py_upper_char s"

definition py_lower_char :: "char \<Rightarrow> char" where
  "py_lower_char c =
     (if of_char CHR ''A'' \<le> (of_char c :: int) \<and> (of_char c :: int) \<le> of_char CHR ''Z''
      then char_of (of_char c + (32::int)) else c)"

text \<open>\<open>s.startswith(p)\<close>.\<close>

definition startswith :: "string \<Rightarrow> string \<Rightarrow> bool" where
  "startswith s p = (take (length p) s = p)"

text \<open>\<open>s.split()\<close>: the words between runs of white space; \<open>cur\<close> is the word being read.\<close>

fun split_ws :: "string \<Rightarrow> string \<Rightarrow> string list" where
  "split_ws cur [] = (if cur = [] then [] else [cur])"
| "split_ws cur (c # cs) =
     (if py_isspace c then (if cur = [] then split_ws [] cs else cur # split_ws [] cs)
      else split_ws (cur @ [c]) cs)"

definition py_split :: "string \<Rightarrow> string list" where
  "py_split s = split_ws [] s"

text \<open>\<open>s.split(",", 1)\<close>: split at the first comma, or the string alone.\<close>

definition split_comma1 :: "string \<Rightarrow> string list" where
  "split_comma1 s =
     (if CHR '','' \<in> set s
      then [takeWhile (\<lambda>c. c \<noteq> CHR '','') s, tl (dropWhile (\<lambda>c. c \<noteq> CHR '','') s)]
      else [s])"

text \<open>\<open>f.readlines()\<close> on a file opened in text mode: the text is cut after each line
  end, and the line ends CR LF and CR are read as LF.\<close>

fun read_lines :: "string \<Rightarrow> string \<Rightarrow> string list" where
  "read_lines cur [] = (if cur = [] then [] else [cur])"
| "read_lines cur (c # cs) =
     (if c = CHR 0x0A then (cur @ [CHR 0x0A]) # read_lines [] cs
      else if c = CHR 0x0D then
        (case cs of
           d # ds \<Rightarrow> if d = CHR 0x0A then (cur @ [CHR 0x0A]) # read_lines [] ds
                     else (cur @ [CHR 0x0A]) # read_lines [] cs
         | [] \<Rightarrow> (cur @ [CHR 0x0A]) # read_lines [] cs)
      else read_lines (cur @ [c]) cs)"

definition py_readlines :: "string \<Rightarrow> string list" where
  "py_readlines text = read_lines [] text"

subsection \<open>Integers and text\<close>

text \<open>Decimal digits, the value of a digit string, and the digits of an int. \<open>str(n)\<close>,
  also inside an f-string, raises ValueError for an int of more than 4300 digits.\<close>

definition is_digit :: "char \<Rightarrow> bool" where
  "is_digit c = (of_char CHR ''0'' \<le> (of_char c :: int) \<and> (of_char c :: int) \<le> of_char CHR ''9'')"

definition digit_val :: "char \<Rightarrow> int" where
  "digit_val c = of_char c - 48"

definition digit_char :: "int \<Rightarrow> char" where
  "digit_char d = char_of (48 + d)"

definition digits_val :: "string \<Rightarrow> int" where
  "digits_val ds = foldl (\<lambda>a c. 10 * a + digit_val c) 0 ds"

function dec_digits :: "int \<Rightarrow> string" where
  "dec_digits n =
     (if n < 10 then [digit_char n] else dec_digits (n div 10) @ [digit_char (n mod 10)])"
  by pat_completeness auto
termination
  by (relation "measure nat") auto

declare dec_digits.simps [simp del]

definition max_str_digits :: nat where
  "max_str_digits = 4300"

definition str_int :: "int \<Rightarrow> string" where
  "str_int n = (if n < 0 then CHR 0x2D # dec_digits (- n) else dec_digits n)"

definition py_str_int :: "int \<Rightarrow> py_error + string" where
  "py_str_int n =
     (if length (dec_digits \<bar>n\<bar>) > max_str_digits then Inl ValueError else Inr (str_int n))"

text \<open>The grammar of numeric text: \<open>digits_us\<close> reads on after a digit, through digits and
  single underscores between digits, and returns the digits and the rest;
  \<open>digitpart\<close> reads a digit group; \<open>take_sign\<close> reads an optional sign. \<open>int(s)\<close> accepts a
  sign and one group, surrounded by white space, of at most 4300 digits.\<close>

fun digits_us :: "string \<Rightarrow> string \<times> string" where
  "digits_us [] = ([], [])"
| "digits_us [c] = (if is_digit c then ([c], []) else ([], [c]))"
| "digits_us (c # d # cs) =
     (if is_digit c then apfst ((#) c) (digits_us (d # cs))
      else if c = CHR ''_'' \<and> is_digit d then apfst ((#) d) (digits_us cs)
      else ([], c # d # cs))"

definition digitpart :: "string \<Rightarrow> string \<times> string" where
  "digitpart s = (case s of [] \<Rightarrow> ([], []) | c # cs \<Rightarrow> if is_digit c then digits_us s else ([], s))"

definition take_sign :: "string \<Rightarrow> bool \<times> string" where
  "take_sign s =
     (case s of
        [] \<Rightarrow> (False, [])
      | c # cs \<Rightarrow> if c = CHR ''-'' then (True, cs) else if c = CHR ''+'' then (False, cs) else (False, s))"

definition py_int_of_str :: "string \<Rightarrow> py_error + int" where
  "py_int_of_str s =
     (let (neg, r) = take_sign (num_strip s); (ds, rest) = digitpart r
      in if ds = [] \<or> rest \<noteq> [] \<or> length ds > max_str_digits then Inl ValueError
         else Inr (if neg then - digits_val ds else digits_val ds))"

subsection \<open>Floats\<close>

datatype pyfloat = Fin rat | PInf | NInf | NaN

text \<open>\<open>n / d\<close> (with \<open>d > 0\<close>) rounded to the nearest integer, ties to even.\<close>

definition div_half_even :: "int \<Rightarrow> int \<Rightarrow> int" where
  "div_half_even n d =
     (let f = n div d; r = n mod d
      in if 2 * r < d then f else if 2 * r > d then f + 1 else if even f then f else f + 1)"

text \<open>For positive \<open>n\<close> and \<open>d\<close>: the exponent \<open>e\<close> with \<open>2 ^ e \<le> n / d < 2 ^ (e + 1)\<close>.\<close>

definition binade :: "int \<Rightarrow> int \<Rightarrow> int" where
  "binade n d =
     (let e = bitlen n - bitlen d
      in if n * 2 ^ nat (- e) < d * 2 ^ nat e then e - 1 else e)"

text \<open>The double nearest to \<open>n / d\<close> (with \<open>d > 0\<close>): 53 significant bits, the spacing of
  the subnormals below \<open>2 ^ - 1022\<close>, an infinity from \<open>2 ^ 1024\<close> on.\<close>

definition round_ratio :: "int \<Rightarrow> int \<Rightarrow> pyfloat" where
  "round_ratio n d =
     (if n = 0 then Fin 0
      else
        let a = \<bar>n\<bar>;
            u = max (binade a d - 52) (- 1074);
            m = div_half_even (a * 2 ^ nat (- u)) (d * 2 ^ nat u)
        in if bitlen m + u > 1024 then (if n > 0 then PInf else NInf)
           else Fin (of_int (if n > 0 then m else - m) * 2 powi u))"

definition round_double :: "rat \<Rightarrow> pyfloat" where
  "round_double q = round_ratio (fst (quotient_of q)) (snd (quotient_of q))"

text \<open>\<open>float(n)\<close> for an int, also where an int meets a float in arithmetic.\<close>

definition py_float_of_int :: "int \<Rightarrow> py_error + pyfloat" where
  "py_float_of_int n =
     (case round_ratio n 1 of Fin q \<Rightarrow> Inr (Fin q) | _ \<Rightarrow> Inl OverflowError)"

text \<open>\<open>float(s)\<close> for a string: white space, a sign, then \<open>inf\<close>, \<open>infinity\<close> or \<open>nan\<close> in any
  letter case, or digits with an optional point and an optional exponent. The scan
  gives the sign, the digits as an int and the power of ten.\<close>

datatype float_lit = LitInf bool | LitNaN | LitNum bool int int

definition scan_float :: "string \<Rightarrow> float_lit option" where
  "scan_float s =
     (let (neg, r) = take_sign (num_strip s);
          w = map py_lower_char r
      in if w = ''inf'' \<or> w = ''infinity'' then Some (LitInf neg)
         else if w = ''nan'' then Some LitNaN
         else
           let (ip, r1) = digitpart r;
               dot = (r1 \<noteq> [] \<and> hd r1 = CHR ''.'');
               (fp, r2) = (if dot then digitpart (tl r1) else ([], r1));
               ex = (r2 \<noteq> [] \<and> (hd r2 = CHR ''e'' \<or> hd r2 = CHR ''E''));
               (eneg, r3) = (if ex then take_sign (tl r2) else (False, r2));
               (ed, r4) = (if ex then digitpart r3 else ([], r3));
               e = (if eneg then - digits_val ed else digits_val ed)
           in if (ip = [] \<and> fp = []) \<or> (ex \<and> ed = []) \<or> r4 \<noteq> [] then None
              else Some (LitNum neg (digits_val (ip @ fp)) (e - int (length fp))))"

fun float_of_lit :: "float_lit \<Rightarrow> pyfloat" where
  "float_of_lit (LitInf neg) = (if neg then NInf else PInf)"
| "float_of_lit LitNaN = NaN"
| "float_of_lit (LitNum neg m e) =
     (if e \<ge> 0 then round_ratio ((if neg then - m else m) * 10 ^ nat e) 1
      else round_ratio (if neg then - m else m) (10 ^ nat (- e)))"

definition py_float_of_str :: "string \<Rightarrow> py_error + pyfloat" where
  "py_float_of_str s =
     (case scan_float s of None \<Rightarrow> Inl ValueError | Some l \<Rightarrow> Inr (float_of_lit l))"

text \<open>\<open>int(f)\<close> for a float: truncation towards zero. \<open>int_float_str\<close> is \<open>int(float(s))\<close>;
  \<open>float\<close> has no limit on the digits.\<close>

fun py_int_of_float :: "pyfloat \<Rightarrow> py_error + int" where
  "py_int_of_float (Fin q) = Inr (if q \<ge> 0 then \<lfloor>q\<rfloor> else \<lceil>q\<rceil>)"
| "py_int_of_float PInf = Inl OverflowError"
| "py_int_of_float NInf = Inl OverflowError"
| "py_int_of_float NaN = Inl ValueError"

definition int_float_str :: "string \<Rightarrow> py_error + int" where
  "int_float_str s = (case py_float_of_str s of Inl e \<Rightarrow> Inl e | Inr f \<Rightarrow> py_int_of_float f)"


text \<open>Float arithmetic: the exact result, rounded. A float times or plus a float never
  raises; it overflows to an infinity.\<close>

fun fmul :: "pyfloat \<Rightarrow> pyfloat \<Rightarrow> pyfloat" where
  "fmul (Fin x) (Fin y) = round_double (x * y)"
| "fmul NaN _ = NaN"
| "fmul _ NaN = NaN"
| "fmul (Fin x) PInf = (if x = 0 then NaN else if x > 0 then PInf else NInf)"
| "fmul (Fin x) NInf = (if x = 0 then NaN else if x > 0 then NInf else PInf)"
| "fmul PInf (Fin y) = (if y = 0 then NaN else if y > 0 then PInf else NInf)"
| "fmul NInf (Fin y) = (if y = 0 then NaN else if y > 0 then NInf else PInf)"
| "fmul PInf PInf = PInf"
| "fmul NInf NInf = PInf"
| "fmul PInf NInf = NInf"
| "fmul NInf PInf = NInf"

fun fadd :: "pyfloat \<Rightarrow> pyfloat \<Rightarrow> pyfloat" where
  "fadd (Fin x) (Fin y) = round_double (x + y)"
| "fadd NaN _ = NaN"
| "fadd _ NaN = NaN"
| "fadd PInf NInf = NaN"
| "fadd NInf PInf = NaN"
| "fadd PInf _ = PInf"
| "fadd NInf _ = NInf"
| "fadd _ PInf = PInf"
| "fadd _ NInf = NInf"

text \<open>\<open>a / b\<close> on two ints: the quotient, correctly rounded.\<close>

definition py_truediv :: "int \<Rightarrow> int \<Rightarrow> py_error + pyfloat" where
  "py_truediv a b =
     (if b = 0 then Inl ZeroDivisionError
      else case round_ratio (if b < 0 then - a else a) \<bar>b\<bar> of
             Fin q \<Rightarrow> Inr (Fin q)
           | _ \<Rightarrow> Inl OverflowError)"

text \<open>\<open>round(f)\<close> with one argument: the nearest int, ties to even.\<close>

fun py_round :: "pyfloat \<Rightarrow> py_error + int" where
  "py_round (Fin q) = Inr (div_half_even (fst (quotient_of q)) (snd (quotient_of q)))"
| "py_round PInf = Inl OverflowError"
| "py_round NInf = Inl OverflowError"
| "py_round NaN = Inl ValueError"

text \<open>The values a CSV reader hands over: text, numbers, or nothing.\<close>

datatype pyval = PStr string | PInt int | PFloat pyfloat | PNone

fun py_float :: "pyval \<Rightarrow> py_error + pyfloat" where
  "py_float (PStr s) = py_float_of_str s"
| "py_float (PInt n) = py_float_of_int n"
| "py_float (PFloat f) = Inr f"
| "py_float PNone = Inl TypeError"

fun py_int :: "pyval \<Rightarrow> py_error + int" where
  "py_int (PStr s) = py_int_of_str s"
| "py_int (PInt n) = Inr n"
| "py_int (PFloat f) = py_int_of_float f"
| "py_int PNone = Inl TypeError"

definition int_float :: "pyval \<Rightarrow> py_error + int" where
  "int_float v = (case py_float v of Inl e \<Rightarrow> Inl e | Inr f \<Rightarrow> py_int_of_float f)"

text \<open>
  Ints and doubles. \<open>float_exact n\<close>: \<open>float(n)\<close> returns \<open>n\<close> itself, so that
  \<open>int(float(n)) == n\<close>. \<open>float_limit\<close> is the least int that \<open>float\<close> refuses, half a step
  above the largest double. \<open>is_double f\<close>: the value is one that a double holds (the
  model's floats range over all rationals).
\<close>

definition float_exact :: "int \<Rightarrow> bool" where
  "float_exact n = (py_float_of_int n = Inr (Fin (of_int n)))"

definition float_limit :: int where
  "float_limit = 2 ^ 1024 - 2 ^ 970"

definition is_double :: "pyfloat \<Rightarrow> bool" where
  "is_double f = (case f of Fin q \<Rightarrow> round_double q = Fin q | _ \<Rightarrow> True)"

section \<open>The scene document (app/scene_tab.py)\<close>

text \<open>
  The fields of \<open>SceneTab\<close> that the editing operations read or write, and the object
  store. The Qt scene that \<open>_draw_grid\<close> fills and the receivers of the \<open>element_changed\<close>
  signal are outside the class; they read the document and do not write it. The signal
  is delivered by Qt: \<open>element_changed.emit()\<close> returns to the operation whatever a
  receiver does, an exception of a receiver being Qt's to report.
\<close>

record SceneTab =
  grid_size :: int
  cell_size :: int
  cc :: rgb
  tool :: string
  temp_points :: "point list"
  circle_center :: "point option"
  elements :: "ref list"
  undo_manager :: UndoManager
  store :: store

definition new_SceneTab :: "store \<Rightarrow> int \<Rightarrow> int \<Rightarrow> SceneTab" where
  "new_SceneTab h gs cs =
     \<lparr>grid_size = gs, cell_size = cs, cc = (255, 0, 0), tool = ''polyline'',
      temp_points = [], circle_center = None, elements = [],
      undo_manager = new_UndoManager, store = h\<rparr>"

text \<open>\<open>SceneElement(...)\<close> allocates a new object; the reference is the next free index.\<close>

definition alloc :: "SceneElement \<Rightarrow> SceneTab \<Rightarrow> ref \<times> SceneTab" where
  "alloc e s = (length (store s), s\<lparr>store := store s @ [e]\<rparr>)"

subsection \<open>Redrawing\<close>

text \<open>
  \<open>_draw_grid\<close> clears the Qt scene and adds the grid lines, the elements of the list, the
  buffered points and the pending circle centre. The calls into the scene are taken to
  accept the numbers they are given. What can raise on the way is Python's own
  arithmetic: every point is marked by \<open>addEllipse(x - 0.5, y - 0.5, 1, 1, pen)\<close>, and
  \<open>x - 0.5\<close> converts the int \<open>x\<close> to a float, which raises OverflowError beyond the
  range of a double. The other arguments (\<open>cx - r\<close>, \<open>2 * r\<close>, the end points of the
  lines, also those of the highlight) are ints. The model gives the exception of a
  redraw, if there is one; \<open>first_error\<close> is a \<open>for\<close> loop that the first exception leaves.
\<close>

definition sub_half :: "int \<Rightarrow> py_error + pyfloat" where
  "sub_half x =
     (case py_float_of_int x of Inl e \<Rightarrow> Inl e | Inr f \<Rightarrow> Inr (fadd f (Fin (- (1 / 2)))))"

definition draw_dot :: "point \<Rightarrow> py_error option" where
  "draw_dot p =
     (case sub_half (fst p) of
        Inl e \<Rightarrow> Some e
      | Inr fx \<Rightarrow> (case sub_half (snd p) of Inl e \<Rightarrow> Some e | Inr fy \<Rightarrow> None))"

fun first_error :: "('a \<Rightarrow> py_error option) \<Rightarrow> 'a list \<Rightarrow> py_error option" where
  "first_error f [] = None"
| "first_error f (x # xs) = (case f x of Some e \<Rightarrow> Some e | None \<Rightarrow> first_error f xs)"

text \<open>\<open>_draw_element\<close>: the lines of a polyline, then a dot on each of its points; for a
  circle with a centre and a positive radius, the circle and a dot on the centre.\<close>

definition draw_element :: "SceneElement \<Rightarrow> py_error option" where
  "draw_element el =
     (if kind el = ''polyline'' then first_error draw_dot (points el)
      else if kind el = ''circle'' \<and> points el \<noteq> [] then
        (if radius el > 0 then draw_dot (hd (points el)) else None)
      else None)"

definition draw_grid :: "SceneTab \<Rightarrow> py_error option" where
  "draw_grid s =
     (case first_error draw_element (map ((!) (store s)) (elements s)) of
        Some e \<Rightarrow> Some e
      | None \<Rightarrow>
          (case first_error draw_dot (temp_points s) of
             Some e \<Rightarrow> Some e
           | None \<Rightarrow>
               (if tool s = ''circle'' then
                  (case circle_center s of None \<Rightarrow> None | Some c \<Rightarrow> draw_dot c)
                else None)))"

subsection \<open>Editing operations\<close>

text \<open>
  Every operation below changes the document first and redraws last, so an exception
  of the redraw leaves the document changed. \<open>commit_polyline\<close> and
  \<open>commit_circle_from_center\<close> return the new element after the redraw: the model gives
  the exception or the returned value, and the document. The operations that return
  nothing are modelled by the document they leave.
\<close>

text \<open>\<open>self._temp_points.append((x, y))\<close>; its one caller in the source is the mouse
  handler \<open>_handle_mouse_press\<close> below.\<close>

definition append_temp_point :: "SceneTab \<Rightarrow> point \<Rightarrow> SceneTab" where
  "append_temp_point s p = s\<lparr>temp_points := temp_points s @ [p]\<rparr>"

text \<open>\<open>MainWindow.set_color\<close>: \<open>sc.cc = rgb\<close>, and \<open>MainWindow.set_tool\<close>: \<open>sc.tool = tool_name\<close>.\<close>

definition set_color :: "SceneTab \<Rightarrow> rgb \<Rightarrow> SceneTab" where
  "set_color s c = s\<lparr>cc := c\<rparr>"

definition set_tool :: "SceneTab \<Rightarrow> string \<Rightarrow> SceneTab" where
  "set_tool s t = s\<lparr>tool := t\<rparr>"

definition commit_polyline :: "SceneTab \<Rightarrow> (py_error + ref option) \<times> SceneTab" where
  "commit_polyline s =
     (if length (temp_points s) \<ge> 2 then
        let (el, s1) = alloc \<lparr>kind = ''polyline'', points = temp_points s,
                               color = cc s, radius = 0\<rparr> s;
            s2 = s1\<lparr>elements := elements s1 @ [el]\<rparr>;
            s3 = s2\<lparr>undo_manager := push_add (undo_manager s2) el\<rparr>;
            s4 = s3\<lparr>temp_points := []\<rparr>
        in (case draw_grid s4 of Some e \<Rightarrow> (Inl e, s4) | None \<Rightarrow> (Inr (Some el), s4))
      else (Inr None, s))"

definition commit_circle_from_center ::
  "SceneTab \<Rightarrow> point \<Rightarrow> int \<Rightarrow> (py_error + ref) \<times> SceneTab" where
  "commit_circle_from_center s cen r =
     (let (el, s1) = alloc \<lparr>kind = ''circle'', points = [cen], color = cc s, radius = r\<rparr> s;
          s2 = s1\<lparr>elements := elements s1 @ [el]\<rparr>;
          s3 = s2\<lparr>undo_manager := push_add (undo_manager s2) el\<rparr>;
          s4 = s3\<lparr>circle_center := None\<rparr>
      in (case draw_grid s4 of Some e \<Rightarrow> (Inl e, s4) | None \<Rightarrow> (Inr el, s4)))"

definition clear_temporary :: "SceneTab \<Rightarrow> SceneTab" where
  "clear_temporary s = s\<lparr>temp_points := [], circle_center := None\<rparr>"

definition clear_all :: "SceneTab \<Rightarrow> SceneTab" where
  "clear_all s = s\<lparr>elements := [], undo_manager := new_UndoManager,
                    temp_points := [], circle_center := None\<rparr>"

definition remove_element :: "SceneTab \<Rightarrow> ref \<Rightarrow> SceneTab" where
  "remove_element s el =
     (if py_in (store s) el (elements s) then
        let s1 = s\<lparr>elements := py_remove (store s) el (elements s)\<rparr>
        in s1\<lparr>undo_manager := push_remove (undo_manager s1) el\<rparr>
      else s)"

definition undo :: "SceneTab \<Rightarrow> SceneTab" where
  "undo s = (let (um, els) = um_undo (store s) (undo_manager s) (elements s)
             in s\<lparr>undo_manager := um, elements := els\<rparr>)"

definition redo :: "SceneTab \<Rightarrow> SceneTab" where
  "redo s = (let (um, els) = um_redo (store s) (undo_manager s) (elements s)
             in s\<lparr>undo_manager := um, elements := els\<rparr>)"

subsection \<open>The mouse\<close>

text \<open>\<open>max(0, min(self.grid_size, x))\<close>.\<close>

definition clamp_grid :: "int \<Rightarrow> int \<Rightarrow> int" where
  "clamp_grid gs x = max 0 (min gs x)"

text \<open>
  \<open>_map_event_to_scene\<close>, from the scene position \<open>sp\<close> that the view's \<open>mapToScene\<close>
  reports for the event: each coordinate is rounded to an int and clamped to the grid.
\<close>

definition map_event_to_scene :: "SceneTab \<Rightarrow> pyfloat \<times> pyfloat \<Rightarrow> py_error + point" where
  "map_event_to_scene s sp =
     (case py_round (fst sp) of
        Inl e \<Rightarrow> Inl e
      | Inr x \<Rightarrow>
          (case py_round (snd sp) of
             Inl e \<Rightarrow> Inl e
           | Inr y \<Rightarrow> Inr (clamp_grid (grid_size s) x, clamp_grid (grid_size s) y)))"

text \<open>\<open>math.hypot(a, b)\<close> on two ints: both are converted to float; the function itself
  comes from the C library and is a parameter \<open>hypotf\<close>.\<close>

definition py_hypot ::
  "(pyfloat \<Rightarrow> pyfloat \<Rightarrow> pyfloat) \<Rightarrow> int \<Rightarrow> int \<Rightarrow> py_error + pyfloat" where
  "py_hypot hypotf a b =
     (case py_float_of_int a of
        Inl e \<Rightarrow> Inl e
      | Inr fa \<Rightarrow> (case py_float_of_int b of Inl e \<Rightarrow> Inl e | Inr fb \<Rightarrow> Inr (hypotf fa fb)))"

text \<open>
  \<open>_handle_mouse_press\<close> for the left button. With the polyline tool the point is
  buffered. With the circle tool the first click sets the centre and the second commits
  the circle, with the distance of the two clicks as radius. The result is the
  exception raised, if any, and the document.
\<close>

definition handle_left_press ::
  "(pyfloat \<Rightarrow> pyfloat \<Rightarrow> pyfloat) \<Rightarrow> SceneTab \<Rightarrow> pyfloat \<times> pyfloat
     \<Rightarrow> py_error option \<times> SceneTab" where
  "handle_left_press hypotf s sp =
     (case map_event_to_scene s sp of
        Inl e \<Rightarrow> (Some e, s)
      | Inr p \<Rightarrow>
          if tool s = ''polyline'' then
            (draw_grid (append_temp_point s p), append_temp_point s p)
          else if tool s = ''circle'' then
            (case circle_center s of
               None \<Rightarrow> (draw_grid (s\<lparr>circle_center := Some p\<rparr>), s\<lparr>circle_center := Some p\<rparr>)
             | Some c \<Rightarrow>
                 (case py_hypot hypotf (fst p - fst c) (snd p - snd c) of
                    Inl e \<Rightarrow> (Some e, s)
                  | Inr h \<Rightarrow>
                      (case py_round h of
                         Inl e \<Rightarrow> (Some e, s)
                       | Inr r \<Rightarrow>
                           (case fst (commit_circle_from_center s c r) of
                              Inl e \<Rightarrow> (Some e, snd (commit_circle_from_center s c r))
                            | Inr el \<Rightarrow> (None, snd (commit_circle_from_center s c r))))))
          else (None, s))"

subsection \<open>Documents that can be drawn\<close>

text \<open>
  The coordinates that a redraw converts to float: those of the listed polylines, the
  centre of a listed circle with a positive radius, the buffered points, and the
  pending centre when the circle tool is chosen. \<open>drawable\<close>: all of them are below
  \<open>float_limit\<close> in magnitude.
\<close>

definition in_range :: "point \<Rightarrow> bool" where
  "in_range p = (\<bar>fst p\<bar> < float_limit \<and> \<bar>snd p\<bar> < float_limit)"

definition element_in_range :: "SceneElement \<Rightarrow> bool" where
  "element_in_range el =
     (if kind el = ''polyline'' then list_all in_range (points el)
      else if kind el = ''circle'' \<and> points el \<noteq> [] \<and> radius el > 0 then in_range (hd (points el))
      else True)"

definition drawable :: "SceneTab \<Rightarrow> bool" where
  "drawable s =
     (list_all (\<lambda>r. element_in_range (store s ! r)) (elements s)
      \<and> list_all in_range (temp_points s)
      \<and> (if tool s = ''circle'' then
            (case circle_center s of None \<Rightarrow> True | Some c \<Rightarrow> in_range c)
          else True))"

section \<open>Circle rasterisation (app/utils.py)\<close>

text \<open>\<open>math.pi\<close>, the double nearest to the circle constant.\<close>

definition math_pi :: rat where
  "math_pi = 884279719003555 / 281474976710656"

text \<open>
  \<open>math.cos\<close> and \<open>math.sin\<close> come from the platform's C library; the model takes them as
  parameters \<open>cosf\<close> and \<open>sinf\<close> on finite doubles. On an infinity they raise ValueError
  and a NaN is passed through.
\<close>

fun math_fn :: "(rat \<Rightarrow> rat) \<Rightarrow> pyfloat \<Rightarrow> py_error + pyfloat" where
  "math_fn f (Fin t) = Inr (Fin (f t))"
| "math_fn f NaN = Inr NaN"
| "math_fn f PInf = Inl ValueError"
| "math_fn f NInf = Inl ValueError"

text \<open>\<open>int(round(c + r * v))\<close> for ints \<open>c\<close>, \<open>r\<close> and a float \<open>v\<close>: both ints are converted
  to float, which raises OverflowError beyond the double range.\<close>

definition offset_coord :: "int \<Rightarrow> int \<Rightarrow> pyfloat \<Rightarrow> py_error + int" where
  "offset_coord c r v =
     (case py_float_of_int r of
        Inl e \<Rightarrow> Inl e
      | Inr fr \<Rightarrow>
          (case py_float_of_int c of
             Inl e \<Rightarrow> Inl e
           | Inr fc \<Rightarrow> py_round (fadd fc (fmul fr v))))"

text \<open>One pass of the loop body, for index \<open>i\<close>.\<close>

definition circle_point ::
  "(rat \<Rightarrow> rat) \<Rightarrow> (rat \<Rightarrow> rat) \<Rightarrow> point \<Rightarrow> int \<Rightarrow> int \<Rightarrow> int \<Rightarrow> py_error + point" where
  "circle_point cosf sinf cen r s i =
     (case py_truediv i s of
        Inl e \<Rightarrow> Inl e
      | Inr q \<Rightarrow>
          let t = fmul (fmul (Fin 2) (Fin math_pi)) q
          in (case math_fn cosf t of
                Inl e \<Rightarrow> Inl e
              | Inr c \<Rightarrow>
                  (case offset_coord (fst cen) r c of
                     Inl e \<Rightarrow> Inl e
                   | Inr x \<Rightarrow>
                       (case math_fn sinf t of
                          Inl e \<Rightarrow> Inl e
                        | Inr sn \<Rightarrow>
                            (case offset_coord (snd cen) r sn of
                               Inl e \<Rightarrow> Inl e
                             | Inr y \<Rightarrow> Inr (x, y))))))"

text \<open>\<open>for i in range(s)\<close>, as a recursion over the list of indices; an exception ends it.\<close>

fun circle_loop ::
  "(rat \<Rightarrow> rat) \<Rightarrow> (rat \<Rightarrow> rat) \<Rightarrow> point \<Rightarrow> int \<Rightarrow> int \<Rightarrow> int list \<Rightarrow> point list
     \<Rightarrow> py_error + point list" where
  "circle_loop cosf sinf cen r s [] pts = Inr pts"
| "circle_loop cosf sinf cen r s (i # is) pts =
     (case circle_point cosf sinf cen r s i of
        Inl e \<Rightarrow> Inl e
      | Inr p \<Rightarrow> circle_loop cosf sinf cen r s is (pts @ [p]))"

definition circle_to_points ::
  "(rat \<Rightarrow> rat) \<Rightarrow> (rat \<Rightarrow> rat) \<Rightarrow> point \<Rightarrow> int \<Rightarrow> int \<Rightarrow> py_error + point list" where
  "circle_to_points cosf sinf cen r s =
     (if r \<le> 0 \<or> s \<le> 0 then Inr []
      else circle_loop cosf sinf cen r s [0..s - 1] [])"

text \<open>
  A coordinate \<open>c + r * v\<close> with \<open>v\<close> in \<open>[-1, 1]\<close> is at most \<open>|float(c)| + |float(r)|\<close> in
  magnitude. \<open>offset_fits c r\<close>: both conversions return and that sum is below
  \<open>float_limit\<close>, so that no such coordinate overflows.
\<close>

definition offset_fits :: "int \<Rightarrow> int \<Rightarrow> bool" where
  "offset_fits c r =
     (case py_float_of_int c of
        Inr (Fin a) \<Rightarrow>
          (case py_float_of_int r of
             Inr (Fin b) \<Rightarrow> \<bar>a\<bar> + \<bar>b\<bar> < of_int float_limit
           | _ \<Rightarrow> False)
      | _ \<Rightarrow> False)"

section \<open>Laser format (app/main_window.py)\<close>

subsection \<open>Export\<close>

text \<open>\<open>round((v / max(1, g)) * 255)\<close>.\<close>

definition normalize_coord :: "int \<Rightarrow> int \<Rightarrow> py_error + int" where
  "normalize_coord v g =
     (case py_truediv v (max 1 g) of
        Inl e \<Rightarrow> Inl e
      | Inr q \<Rightarrow> py_round (fmul q (Fin 255)))"

text \<open>The f-string \<open>f"{a},{b}\n"\<close>, and the line written for a point.\<close>

definition fmt_pair :: "int \<Rightarrow> int \<Rightarrow> py_error + string" where
  "fmt_pair a b =
     (case py_str_int a of
        Inl e \<Rightarrow> Inl e
      | Inr sa \<Rightarrow>
          (case py_str_int b of
             Inl e \<Rightarrow> Inl e
           | Inr sb \<Rightarrow> Inr (sa @ '','' @ sb @ [CHR 0x0A])))"

definition export_point :: "bool \<Rightarrow> int \<Rightarrow> int \<Rightarrow> point \<Rightarrow> py_error + string" where
  "export_point nz gx gy p =
     (if nz then
        (case normalize_coord (fst p) gx of
           Inl e \<Rightarrow> Inl e
         | Inr nx \<Rightarrow>
             (case normalize_coord (snd p) gy of
                Inl e \<Rightarrow> Inl e
              | Inr ny \<Rightarrow> fmt_pair nx ny))
      else fmt_pair (fst p) (snd p))"

fun export_points :: "bool \<Rightarrow> int \<Rightarrow> int \<Rightarrow> point list \<Rightarrow> py_error + string" where
  "export_points nz gx gy [] = Inr []"
| "export_points nz gx gy (p # ps) =
     (case export_point nz gx gy p of
        Inl e \<Rightarrow> Inl e
      | Inr l \<Rightarrow>
          (case export_points nz gx gy ps of
             Inl e \<Rightarrow> Inl e
           | Inr t \<Rightarrow> Inr (l @ t)))"

definition element_points ::
  "(rat \<Rightarrow> rat) \<Rightarrow> (rat \<Rightarrow> rat) \<Rightarrow> int \<Rightarrow> SceneElement \<Rightarrow> py_error + point list" where
  "element_points cosf sinf s el =
     (if kind el = ''polyline'' then Inr (points el)
      else if kind el = ''circle'' then
        (case points el of
           [] \<Rightarrow> Inl IndexError
         | c # _ \<Rightarrow> circle_to_points cosf sinf c (radius el) s)
      else Inr [])"

definition export_element ::
  "(rat \<Rightarrow> rat) \<Rightarrow> (rat \<Rightarrow> rat) \<Rightarrow> int \<Rightarrow> bool \<Rightarrow> int \<Rightarrow> SceneElement \<Rightarrow> py_error + string" where
  "export_element cosf sinf s nz g el =
     (case py_str_int (color_to_code (color el)) of
        Inl e \<Rightarrow> Inl e
      | Inr code \<Rightarrow>
          (case element_points cosf sinf s el of
             Inl e \<Rightarrow> Inl e
           | Inr pts \<Rightarrow>
               (case export_points nz g g pts of
                  Inl e \<Rightarrow> Inl e
                | Inr body \<Rightarrow>
                    Inr (''COLOR '' @ code @ [CHR 0x0A] @ body @ ''STOP'' @ [CHR 0x0A]))))"

fun export_elements ::
  "(rat \<Rightarrow> rat) \<Rightarrow> (rat \<Rightarrow> rat) \<Rightarrow> int \<Rightarrow> bool \<Rightarrow> int \<Rightarrow> SceneElement list \<Rightarrow> py_error + string" where
  "export_elements cosf sinf s nz g [] = Inr []"
| "export_elements cosf sinf s nz g (el # els) =
     (case export_element cosf sinf s nz g el of
        Inl e \<Rightarrow> Inl e
      | Inr t \<Rightarrow>
          (case export_elements cosf sinf s nz g els of
             Inl e \<Rightarrow> Inl e
           | Inr ts \<Rightarrow> Inr (t @ ts)))"

text \<open>The text written to the file by \<open>export_laser_format\<close>, for circle step count \<open>s\<close>,
  the normalize flag and the window's grid size; an exception ends the export.\<close>

definition export_laser_format ::
  "(rat \<Rightarrow> rat) \<Rightarrow> (rat \<Rightarrow> rat) \<Rightarrow> int \<Rightarrow> bool \<Rightarrow> int \<Rightarrow> SceneTab \<Rightarrow> py_error + string" where
  "export_laser_format cosf sinf s nz g sc =
     export_elements cosf sinf s nz g (map ((!) (store sc)) (elements sc))"

subsection \<open>Import\<close>

text \<open>\<open>sc.elements.append(SceneElement(...)); sc.undo_manager.push_add(sc.elements[-1])\<close>.\<close>

definition add_imported :: "SceneElement \<Rightarrow> SceneTab \<Rightarrow> SceneTab" where
  "add_imported e sc =
     (let (el, s1) = alloc e sc;
          s2 = s1\<lparr>elements := elements s1 @ [el]\<rparr>
      in s2\<lparr>undo_manager := push_add (undo_manager s2) el\<rparr>)"

text \<open>The block \<open>if cp and cc is not None: ...\<close>, which occurs three times.\<close>

definition flush_poly :: "rgb option \<Rightarrow> point list \<Rightarrow> SceneTab \<Rightarrow> SceneTab" where
  "flush_poly cco cp sc =
     (case cco of
        None \<Rightarrow> sc
      | Some c \<Rightarrow>
          if cp \<noteq> [] then
            add_imported \<lparr>kind = ''polyline'', points = cp, color = c, radius = 0\<rparr> sc
          else sc)"

type_synonym laser_state = "rgb option \<times> point list \<times> SceneTab"

text \<open>The colour code of a COLOR line: \<open>int(parts[1])\<close>, or 1 when there is no second
  word or it is not an integer.\<close>

definition color_line_code :: "string \<Rightarrow> int" where
  "color_line_code ln1 =
     (let parts = py_split ln1
      in if length parts \<ge> 2 then
           (case py_int_of_str (parts ! 1) of Inl e \<Rightarrow> 1 | Inr k \<Rightarrow> k)
         else 1)"

text \<open>A coordinate line \<open>px, py = ln.split(",", 1)\<close>; any exception skips the line.\<close>

definition coord_line :: "string \<Rightarrow> point option" where
  "coord_line ln1 =
     (case split_comma1 ln1 of
        [px, py] \<Rightarrow>
          (case int_float_str (py_strip px) of
             Inl e \<Rightarrow> None
           | Inr x \<Rightarrow>
               (case int_float_str (py_strip py) of
                  Inl e \<Rightarrow> None
                | Inr y \<Rightarrow> Some (x, y)))
      | _ \<Rightarrow> None)"

text \<open>One pass of the \<open>while\<close> loop, on the stripped line \<open>ln1\<close>.\<close>

fun laser_line :: "laser_state \<Rightarrow> string \<Rightarrow> laser_state" where
  "laser_line (ccol, cp, sc) ln1 =
     (if ln1 = [] then (ccol, cp, sc)
      else if startswith (py_upper ln1) ''COLOR'' then
        (Some (code_to_color (color_line_code ln1)),
         (if cp \<noteq> [] \<and> ccol \<noteq> None then [] else cp),
         flush_poly ccol cp sc)
      else if py_upper ln1 = ''STOP'' then (ccol, [], flush_poly ccol cp sc)
      else
        (case coord_line ln1 of
           None \<Rightarrow> (ccol, cp, sc)
         | Some p \<Rightarrow> (ccol, cp @ [p], sc)))"

definition laser_finish :: "laser_state \<Rightarrow> SceneTab" where
  "laser_finish st = (case st of (ccol, cp, sc) \<Rightarrow> flush_poly ccol cp sc)"

text \<open>\<open>import_laser_format\<close> on the text of the file: a new tab (on the store \<open>h\<close>, with the
  window's grid and cell size), the loop over the stripped lines, the final flush.\<close>

definition import_laser_format :: "store \<Rightarrow> int \<Rightarrow> int \<Rightarrow> string \<Rightarrow> SceneTab" where
  "import_laser_format h gs cs text =
     laser_finish (foldl laser_line (None, [], new_SceneTab h gs cs)
                     (map py_strip (py_readlines text)))"

section \<open>CSV import (app/main_window.py)\<close>

type_synonym row = "(string \<times> pyval) list"

text \<open>\<open>r.get(key, default)\<close>.\<close>

definition row_get :: "row \<Rightarrow> string \<Rightarrow> pyval \<Rightarrow> pyval" where
  "row_get r k d = (case map_of r k of None \<Rightarrow> d | Some v \<Rightarrow> v)"

type_synonym csv_state = "point list \<times> rgb option \<times> SceneTab"

text \<open>The five numeric fields of a row, converted in the order of the source; the first
  failing conversion raises.\<close>

definition row_numbers :: "row \<Rightarrow> py_error + (int \<times> int \<times> int \<times> int \<times> int)" where
  "row_numbers r =
     (case int_float (row_get r ''x'' (PInt 0)) of Inl e \<Rightarrow> Inl e | Inr x \<Rightarrow>
      (case int_float (row_get r ''y'' (PInt 0)) of Inl e \<Rightarrow> Inl e | Inr y \<Rightarrow>
      (case int_float (row_get r ''r'' (PInt 0)) of Inl e \<Rightarrow> Inl e | Inr rc \<Rightarrow>
      (case int_float (row_get r ''g'' (PInt 0)) of Inl e \<Rightarrow> Inl e | Inr gc \<Rightarrow>
      (case int_float (row_get r ''b'' (PInt 0)) of Inl e \<Rightarrow> Inl e | Inr bc \<Rightarrow>
         Inr (x, y, rc, gc, bc))))))"

definition polyline_row :: "csv_state \<Rightarrow> point \<Rightarrow> rgb \<Rightarrow> csv_state" where
  "polyline_row st p col =
     (case st of (poly0, cc0, sc) \<Rightarrow>
        let (poly1, cc1) = (if cc0 = None then ([], Some col) else (poly0, cc0))
        in if Some col \<noteq> cc1 \<and> poly1 \<noteq> [] then
             ([p], Some col,
              add_imported \<lparr>kind = ''polyline'', points = poly1, color = the cc1, radius = 0\<rparr> sc)
           else (poly1 @ [p], cc1, sc))"

text \<open>A circle row. The pending polyline is flushed before the radius is converted, so
  it stays when that conversion raises.\<close>

definition circle_row ::
  "csv_state \<Rightarrow> point \<Rightarrow> rgb \<Rightarrow> pyval \<Rightarrow> py_error option \<times> csv_state" where
  "circle_row st p col rad =
     (case st of (poly0, cc0, sc) \<Rightarrow>
        let (poly1, cc1, sc1) =
              (if poly0 \<noteq> [] then
                 ([], None,
                  add_imported \<lparr>kind = ''polyline'', points = poly0, color = the cc0, radius = 0\<rparr> sc)
               else (poly0, cc0, sc))
        in (case (if rad \<noteq> PNone \<and> rad \<noteq> PStr [] then py_int rad else Inr 0) of
              Inl e \<Rightarrow> (Some e, (poly1, cc1, sc1))
            | Inr rr \<Rightarrow>
                (None, (poly1, cc1,
                        add_imported \<lparr>kind = ''circle'', points = [p], color = col, radius = rr\<rparr>
                          sc1))))"

text \<open>One pass of the loop over the rows: the exception raised, if any, and the state
  the pass leaves.\<close>

definition csv_row :: "csv_state \<Rightarrow> row \<Rightarrow> py_error option \<times> csv_state" where
  "csv_row st r =
     (case row_numbers r of
        Inl e \<Rightarrow> (Some e, st)
      | Inr (x, y, rc, gc, bc) \<Rightarrow>
          let k = row_get r ''kind'' (PStr ''polyline'')
          in if k = PStr ''polyline'' then (None, polyline_row st (x, y) (rc, gc, bc))
             else if k = PStr ''circle'' then
               circle_row st (x, y) (rc, gc, bc) (row_get r ''radius'' (PStr []))
             else (None, st))"

text \<open>The loop over the rows. An exception leaves the loop and the function; the
  elements added so far stay in the new tab.\<close>

fun csv_loop :: "csv_state \<Rightarrow> row list \<Rightarrow> py_error option \<times> csv_state" where
  "csv_loop st [] = (None, st)"
| "csv_loop st (r # rs) =
     (case csv_row st r of
        (Some e, st') \<Rightarrow> (Some e, st')
      | (None, st') \<Rightarrow> csv_loop st' rs)"

definition open_csv :: "store \<Rightarrow> int \<Rightarrow> int \<Rightarrow> row list \<Rightarrow> py_error option \<times> SceneTab" where
  "open_csv h gs cs rows =
     (case csv_loop ([], None, new_SceneTab h gs cs) rows of
        (Some e, (poly, ccol, sc)) \<Rightarrow> (Some e, sc)
      | (None, (poly, ccol, sc)) \<Rightarrow>
          (None,
           if poly \<noteq> [] then
             add_imported \<lparr>kind = ''polyline'', points = poly, color = the ccol, radius = 0\<rparr> sc
           else sc))"

section \<open>The text of an export\<close>

text \<open>
  The lines that \<open>export_laser_format\<close> writes for one polyline when normalize is off:
  the colour directive, one line per point, the terminator. \<open>quantized\<close> is the element
  with its colour replaced by the primary colour of its code. \<open>exact_point\<close> holds of the
  points whose coordinates are ints that a double holds.
\<close>

definition point_line :: "point \<Rightarrow> string" where
  "point_line p = str_int (fst p) @ '','' @ str_int (snd p)"

definition color_line :: "int \<Rightarrow> string" where
  "color_line k = ''COLOR '' @ str_int k"

definition elem_lines :: "SceneElement \<Rightarrow> string list" where
  "elem_lines e =
     color_line (color_to_code (color e)) # map point_line (points e) @ [''STOP'']"

definition quantized :: "SceneElement \<Rightarrow> SceneElement" where
  "quantized e = \<lparr>kind = ''polyline'', points = points e,
                   color = code_to_color (color_to_code (color e)), radius = 0\<rparr>"

definition exact_point :: "point \<Rightarrow> bool" where
  "exact_point p = (float_exact (fst p) \<and> float_exact (snd p))"

text \<open>The characters of a printed int, and the lines that reading and stripping leave
  as they are.\<close>

definition numchar :: "char \<Rightarrow> bool" where
  "numchar c = (is_digit c \<or> c = CHR ''-'')"

definition clean_line :: "string \<Rightarrow> bool" where
  "clean_line l = (l \<noteq> [] \<and> \<not> py_isspace (hd l) \<and> \<not> py_isspace (last l)
                   \<and> (\<forall>c\<in>set l. c \<noteq> CHR 0x0A \<and> c \<noteq> CHR 0x0D))"

section \<open>Sequences of calls\<close>

text \<open>
  The calls a user interface makes on a document between two exports: buffering a point,
  choosing the drawing colour, and the three editing calls that are recorded in the
  undo history.
\<close>


datatype call =
    AppendTemp point
  | SetColor rgb
  | CommitPolyline
  | CommitCircle point int
  | RemoveElement ref

fun do_call :: "SceneTab \<Rightarrow> call \<Rightarrow> SceneTab" where
  "do_call s (AppendTemp p) = append_temp_point s p"
| "do_call s (SetColor c) = set_color s c"
| "do_call s CommitPolyline = snd (commit_polyline s)"
| "do_call s (CommitCircle cen r) = snd (commit_circle_from_center s cen r)"
| "do_call s (RemoveElement el) = remove_element s el"

definition run :: "SceneTab \<Rightarrow> call list \<Rightarrow> SceneTab" where
  "run s cs = foldl do_call s cs"

fun is_edit :: "call \<Rightarrow> bool" where
  "is_edit CommitPolyline = True"
| "is_edit (CommitCircle cen r) = True"
| "is_edit (RemoveElement el) = True"
| "is_edit c = False"

fun succeeds :: "SceneTab \<Rightarrow> call \<Rightarrow> bool" where
  "succeeds s CommitPolyline = (length (temp_points s) \<ge> 2)"
| "succeeds s (RemoveElement el) = (el \<in> set (elements s))"
| "succeeds s c = True"

fun all_succeed :: "SceneTab \<Rightarrow> call list \<Rightarrow> bool" where
  "all_succeed s [] = True"
| "all_succeed s (c # cs) = (succeeds s c \<and> all_succeed (do_call s c) cs)"

definition edit_count :: "call list \<Rightarrow> nat" where
  "edit_count cs = length (filter is_edit cs)"

section \<open>Replaying a history\<close>

text \<open>
  What one history entry does to an element list when it is applied (by the original
  call or by \<open>redo\<close>), the list obtained by applying a whole history to the empty
  list, and the histories in which every remove entry found something to remove.
  \<open>datas\<close> is the multiset of field values of the listed objects.
\<close>


definition apply_entry :: "store \<Rightarrow> ref list \<Rightarrow> string \<times> ref \<Rightarrow> ref list" where
  "apply_entry h els e =
     (if fst e = ''add'' then els @ [snd e]
      else if fst e = ''remove'' then
        (if py_in h (snd e) els then py_remove h (snd e) els else els)
      else els)"

definition replay :: "store \<Rightarrow> (string \<times> ref) list \<Rightarrow> ref list" where
  "replay h ops = foldl (apply_entry h) [] ops"

fun hist_ok_rev :: "store \<Rightarrow> (string \<times> ref) list \<Rightarrow> bool" where
  "hist_ok_rev h [] = True"
| "hist_ok_rev h (e # older) =
     (hist_ok_rev h older \<and>
      (fst e = ''add'' \<or> (fst e = ''remove'' \<and> py_in h (snd e) (replay h (rev older)))))"

definition hist_ok :: "store \<Rightarrow> (string \<times> ref) list \<Rightarrow> bool" where
  "hist_ok h ops = hist_ok_rev h (rev ops)"

definition datas :: "store \<Rightarrow> ref list \<Rightarrow> SceneElement multiset" where
  "datas h xs = mset (map ((!) h) xs)"

definition hist_inv :: "SceneTab \<Rightarrow> bool" where
  "hist_inv s \<longleftrightarrow>
     redo_list (undo_manager s) = []
   \<and> (\<forall>e\<in>set (undo_list (undo_manager s)). snd e < length (store s))
   \<and> hist_ok (store s) (undo_list (undo_manager s))
   \<and> elements s = replay (store s) (undo_list (undo_manager s))"

text \<open>Two equal polylines, a circle, and the removal of the second polyline.\<close>

definition session_calls :: "call list" where
  "session_calls =
     [AppendTemp (0, 0), AppendTemp (10, 10), CommitPolyline,
      AppendTemp (0, 0), AppendTemp (10, 10), CommitPolyline,
      SetColor (0, 0, 255), CommitCircle (5, 5) 3, RemoveElement 1]"

section \<open>Table-driven edits (app/main_window.py)\<close>

text \<open>In-place assignments to a field of the object at reference \<open>r\<close>:
  \<open>el.points[i] = p\<close>, \<open>el.radius = v\<close>, \<open>el.color = c\<close>.\<close>

definition set_point :: "SceneTab \<Rightarrow> ref \<Rightarrow> nat \<Rightarrow> point \<Rightarrow> SceneTab" where
  "set_point s r i p =
     s\<lparr>store := (store s)[r := (store s ! r)\<lparr>points := (points (store s ! r))[i := p]\<rparr>]\<rparr>"

definition set_radius :: "SceneTab \<Rightarrow> ref \<Rightarrow> int \<Rightarrow> SceneTab" where
  "set_radius s r v = s\<lparr>store := (store s)[r := (store s ! r)\<lparr>radius := v\<rparr>]\<rparr>"

definition set_elem_color :: "SceneTab \<Rightarrow> ref \<Rightarrow> rgb \<Rightarrow> SceneTab" where
  "set_elem_color s r c = s\<lparr>store := (store s)[r := (store s ! r)\<lparr>color := c\<rparr>]\<rparr>"

text \<open>The assignment of an edited point (the spec's \<open>mutate_point\<close>): into a polyline at
  a sub-index in range, into a circle at sub-index 0. \<open>el.points[0] = ...\<close> on an empty
  list raises IndexError, which the handler catches: nothing changes.\<close>

definition mutate_point :: "SceneTab \<Rightarrow> ref \<Rightarrow> int \<Rightarrow> point \<Rightarrow> SceneTab" where
  "mutate_point s r sub p =
     (if kind (store s ! r) = ''polyline'' then
        (if 0 \<le> sub \<and> sub < int (length (points (store s ! r))) then set_point s r (nat sub) p
         else s)
      else if kind (store s ! r) = ''circle'' then
        (if sub = 0 then (if points (store s ! r) = [] then s else set_point s r 0 p) else s)
      else s)"

text \<open>The assignment of an edited radius (the spec's \<open>mutate_radius\<close>).\<close>

definition mutate_radius :: "SceneTab \<Rightarrow> ref \<Rightarrow> int \<Rightarrow> SceneTab" where
  "mutate_radius s r v =
     (if kind (store s ! r) = ''circle'' then set_radius s r (max 0 v) else s)"

text \<open>
  \<open>_on_table_item_changed\<close>, on the current scene \<open>s\<close>. Its inputs are the window's
  \<open>table_row_map\<close>, the row and column of the edited item, the text of the row's X and
  Y items (\<open>None\<close> when the table has no item there), and the text of the edited item.
  Every exception of the conversions is caught and leaves the scene as it is.
\<close>

definition on_table_item_changed ::
  "SceneTab \<Rightarrow> (int \<times> int) list \<Rightarrow> int \<Rightarrow> int \<Rightarrow> string option \<Rightarrow> string option \<Rightarrow> string
     \<Rightarrow> SceneTab" where
  "on_table_item_changed s row_map row col x_item y_item item =
     (if row < 0 \<or> row \<ge> int (length row_map) then s
      else
        let el_idx = fst (row_map ! nat row); sub_idx = snd (row_map ! nat row)
        in if el_idx < 0 \<or> el_idx \<ge> int (length (elements s)) then s
           else
             let r = elements s ! nat el_idx
             in if col = 4 \<or> col = 5 then
                  (case x_item of
                     None \<Rightarrow> s
                   | Some xt \<Rightarrow>
                       (case y_item of
                          None \<Rightarrow> s
                        | Some yt \<Rightarrow>
                            (case int_float_str xt of
                               Inl e \<Rightarrow> s
                             | Inr x \<Rightarrow>
                                 (case int_float_str yt of
                                    Inl e \<Rightarrow> s
                                  | Inr y \<Rightarrow>
                                      mutate_point s r sub_idx
                                        (clamp_grid (grid_size s) x, clamp_grid (grid_size s) y)))))
                else if col = 6 then
                  (if kind (store s ! r) = ''circle'' then
                     (case int_float_str item of
                        Inl e \<Rightarrow> s
                      | Inr v \<Rightarrow> mutate_radius s r v)
                   else s)
                else s)"

text \<open>\<open>_on_color_changed_in_table\<close>: the combo box index chooses the primary colour.\<close>

definition on_color_changed_in_table ::
  "SceneTab \<Rightarrow> (int \<times> int) list \<Rightarrow> int \<Rightarrow> int \<Rightarrow> SceneTab" where
  "on_color_changed_in_table s row_map row combo_index =
     (if row < 0 \<or> row \<ge> int (length row_map) then s
      else
        let el_idx = fst (row_map ! nat row)
        in if el_idx < 0 \<or> el_idx \<ge> int (length (elements s)) then s
           else set_elem_color s (elements s ! nat el_idx) (code_to_color (combo_index + 1)))"

section \<open>Sessions\<close>

datatype action =
    Edit call
  | DoUndo
  | DoRedo
  | ClearAll
  | ClearTemporary
  | TableItemChanged "(int \<times> int) list" int int "string option" "string option" string
  | TableColorChanged "(int \<times> int) list" int int
  | ImportLaser string
  | OpenCsv "row list"

text \<open>
  One user action on the current scene. An import opens a new tab, which becomes the
  current scene; its elements are allocated in the same store. \<open>remove_element\<close> is given
  an object, so a reference that names no object is not an action and changes nothing.
\<close>

fun act :: "SceneTab \<Rightarrow> action \<Rightarrow> SceneTab" where
  "act s (Edit (RemoveElement el)) = (if el < length (store s) then remove_element s el else s)"
| "act s (Edit c) = do_call s c"
| "act s DoUndo = undo s"
| "act s DoRedo = redo s"
| "act s ClearAll = clear_all s"
| "act s ClearTemporary = clear_temporary s"
| "act s (TableItemChanged m row col xi yi item) = on_table_item_changed s m row col xi yi item"
| "act s (TableColorChanged m row idx) = on_color_changed_in_table s m row idx"
| "act s (ImportLaser text) = import_laser_format (store s) (grid_size s) (cell_size s) text"
| "act s (OpenCsv rows) = snd (open_csv (store s) (grid_size s) (cell_size s) rows)"

definition session :: "int \<Rightarrow> int \<Rightarrow> action list \<Rightarrow> SceneTab" where
  "session gs cs as = foldl act (new_SceneTab [] gs cs) as"

text \<open>The invariant behind the circle claim: in the whole store a circle has exactly one
  point, and the element list and both history stacks only name objects of the store.\<close>

definition circ_ok :: "store \<Rightarrow> bool" where
  "circ_ok h = (\<forall>e\<in>set h. kind e = ''circle'' \<longrightarrow> length (points e) = 1)"

definition refs_ok :: "SceneTab \<Rightarrow> bool" where
  "refs_ok s = ((\<forall>r\<in>set (elements s). r < length (store s))
     \<and> (\<forall>e\<in>set (undo_list (undo_manager s)). snd e < length (store s))
     \<and> (\<forall>e\<in>set (redo_list (undo_manager s)). snd e < length (store s)))"

definition doc_inv :: "SceneTab \<Rightarrow> bool" where
  "doc_inv s = (circ_ok (store s) \<and> refs_ok s)"

subsection \<open>The events of the window\<close>

text \<open>
  What the window makes of the user's input. A left click goes through
  \<open>_handle_mouse_press\<close>, which is the one caller of \<open>append_temp_point\<close> and of
  \<open>commit_circle_from_center\<close>; the tool buttons set the tool; the settings dialog sets
  the grid and cell size from two spin boxes with the ranges 1 to 255 and 1 to 16; the
  other actions are those above. The positions that Qt reports and the numbers that a
  CSV reader yields are doubles.
\<close>

datatype event =
    LeftPress "pyfloat \<times> pyfloat"
  | SetTool string
  | ApplySettings int int
  | Do action

fun on_event :: "(pyfloat \<Rightarrow> pyfloat \<Rightarrow> pyfloat) \<Rightarrow> SceneTab \<Rightarrow> event \<Rightarrow> SceneTab" where
  "on_event hypotf s (LeftPress sp) = snd (handle_left_press hypotf s sp)"
| "on_event hypotf s (SetTool t) = set_tool s t"
| "on_event hypotf s (ApplySettings g c) = s\<lparr>grid_size := g, cell_size := c\<rparr>"
| "on_event hypotf s (Do a) = act s a"

fun csv_double :: "pyval \<Rightarrow> bool" where
  "csv_double (PFloat f) = is_double f"
| "csv_double v = True"

fun window_event :: "event \<Rightarrow> bool" where
  "window_event (LeftPress sp) = (is_double (fst sp) \<and> is_double (snd sp))"
| "window_event (SetTool t) = True"
| "window_event (ApplySettings g c) = (1 \<le> g \<and> g \<le> 255 \<and> 1 \<le> c \<and> c \<le> 16)"
| "window_event (Do (Edit (AppendTemp p))) = False"
| "window_event (Do (Edit (CommitCircle cen r))) = False"
| "window_event (Do (OpenCsv rows)) = list_all (list_all (\<lambda>kv. csv_double (snd kv))) rows"
| "window_event (Do a) = True"

definition window_session ::
  "(pyfloat \<Rightarrow> pyfloat \<Rightarrow> pyfloat) \<Rightarrow> int \<Rightarrow> int \<Rightarrow> event list \<Rightarrow> SceneTab" where
  "window_session hypotf gs cs evs = foldl (on_event hypotf) (new_SceneTab [] gs cs) evs"

text \<open>The invariant of the coordinates: the grid size and every coordinate in the store,
  in the buffer and of the pending centre is an int that a double holds.\<close>

definition exact_doc :: "SceneTab \<Rightarrow> bool" where
  "exact_doc s =
     (float_exact (grid_size s)
      \<and> list_all (\<lambda>e. list_all exact_point (points e)) (store s)
      \<and> list_all exact_point (temp_points s)
      \<and> (case circle_center s of None \<Rightarrow> True | Some c \<Rightarrow> exact_point c))"

section \<open>Example documents\<close>

text \<open>The same two-point polyline drawn and committed twice: two objects with equal
  fields, at references 0 and 1.\<close>

definition twin_scene :: SceneTab where
  "twin_scene =
     (let s0 = new_SceneTab [] 255 1;
          s1 = snd (commit_polyline (append_temp_point (append_temp_point s0 (0, 0)) (10, 10)));
          s2 = snd (commit_polyline (append_temp_point (append_temp_point s1 (0, 0)) (10, 10)))
      in s2)"


text \<open>A text file with the given lines, each ended by a newline.\<close>

definition text_of_lines :: "string list \<Rightarrow> string" where
  "text_of_lines ls = concat (map (\<lambda>l. l @ [CHR 0x0A]) ls)"

text \<open>A record as \<open>csv.DictReader\<close> yields it for the header
  \<open>kind,x,y,r,g,b,radius\<close>: every field is text.\<close>

definition csv_record ::
  "string \<Rightarrow> string \<Rightarrow> string \<Rightarrow> string \<Rightarrow> string \<Rightarrow> string \<Rightarrow> string \<Rightarrow> row" where
  "csv_record k x y r g b rad =
     [(''kind'', PStr k), (''x'', PStr x), (''y'', PStr y), (''r'', PStr r), (''g'', PStr g),
      (''b'', PStr b), (''radius'', PStr rad)]"

text \<open>The polyline of the spec's example, committed in red.\<close>

definition tri_scene :: SceneTab where
  "tri_scene =
     snd (commit_polyline
            (append_temp_point (append_temp_point (append_temp_point
               (new_SceneTab [] 255 1) (0, 0)) (10, 0)) (10, 10)))"


definition circle_session :: "action list" where
  "circle_session =
     [Edit (AppendTemp (1, 1)), Edit (AppendTemp (2, 2)), Edit CommitPolyline,
      Edit (CommitCircle (5, 5) 3),
      TableItemChanged [(0, 0), (0, 1), (1, 0)] 2 4 (Some ''300'') (Some ''7'') ''300'',
      Edit (RemoveElement 0), DoUndo,
      OpenCsv [csv_record ''circle'' ''9'' ''9'' ''0'' ''0'' ''255'' ''4'']]"

text \<open>An imported polyline with coordinates above \<open>2 ^ 53\<close> that a double holds.\<close>

definition wide_text :: string where
  "wide_text =
     text_of_lines [''COLOR 2'', ''9007199254740994,5'', ''10000000000000000000000,2'', ''STOP'']"

definition wide_scene :: SceneTab where
  "wide_scene = import_laser_format [] 255 1 wide_text"

text \<open>The least power of two that no double holds, and a document with that number
  among its buffered coordinates.\<close>

definition huge :: int where
  "huge = 2 ^ 1024"


text \<open>A polyline and a circle, the circle taken back by \<open>undo\<close>: object 1 stays in the
  store and in the redo stack, and is not in the list.\<close>

definition undone_scene :: SceneTab where
  "undone_scene =
     undo (snd (commit_circle_from_center
                  (snd (commit_polyline
                          (append_temp_point (append_temp_point (new_SceneTab [] 255 1) (0, 0))
                             (10, 10))))
                  (5, 5) 3))"

text \<open>A session of the window: two clicks and a finished polyline, a circle drawn with
  two clicks, and a laser import into a new tab.\<close>

definition window_events :: "event list" where
  "window_events =
     [LeftPress (Fin 3, Fin 4), LeftPress (Fin 300, Fin (- 2)), Do (Edit CommitPolyline),
      SetTool ''circle'', LeftPress (Fin 10, Fin 10), LeftPress (Fin 13, Fin 14),
      Do (ImportLaser wide_text)]"

section \<open>Colour quantisation\<close>

text \<open>
  Claim C3. For every RGB triple, \<open>color_to_code\<close> (the spec's \<open>rgb_to_code\<close>) returns 1
  when red is at least green and at least blue, otherwise 2 when green is at least red
  and at least blue, otherwise 3; the result is always one of 1, 2, 3.
\<close>

theorem color_to_code_dominant:
  "color_to_code (r, g, b) =
     (if r \<ge> g \<and> r \<ge> b then 1 else if g \<ge> r \<and> g \<ge> b then 2 else 3)
   \<and> color_to_code (r, g, b) \<in> {1, 2, 3}
   \<and> (color_to_code (r, g, b) = 1 \<longleftrightarrow> r = max r (max g b))
   \<and> (color_to_code (r, g, b) = 2 \<longleftrightarrow> r < g \<and> g = max r (max g b))
   \<and> (color_to_code (r, g, b) = 3 \<longleftrightarrow> r < b \<and> g < b)"
  by auto

section \<open>Printing and reading numbers\<close>

text \<open>What \<open>str\<close> prints for an int, \<open>float\<close> reads back, and \<open>int\<close> of the float is the same
  int as long as its magnitude is at most \<open>2 ^ 53\<close>.\<close>

lemma digit_char_props:
  "0 \<le> d \<Longrightarrow> d < 10 \<Longrightarrow> is_digit (digit_char d) \<and> digit_val (digit_char d) = d"
  by (simp add: is_digit_def digit_char_def digit_val_def of_char_of)

lemma digits_val_Nil [simp]: "digits_val [] = 0"
  by (simp add: digits_val_def)

lemma digits_val_snoc: "digits_val (ds @ [c]) = 10 * digits_val ds + digit_val c"
  by (simp add: digits_val_def)

lemma dec_digits_props:
  "0 \<le> n \<Longrightarrow> dec_digits n \<noteq> [] \<and> (\<forall>c\<in>set (dec_digits n). is_digit c)
     \<and> digits_val (dec_digits n) = n"
proof (induction n rule: dec_digits.induct)
  case (1 n)
  show ?case
  proof (cases "n < 10")
    case True
    with "1.prems" digit_char_props[of n] show ?thesis
      by (subst (1 2 3) dec_digits.simps) (simp add: digits_val_def)
  next
    case False
    with "1.prems" have "0 \<le> n div 10" by simp
    with "1.IH" False have ih: "dec_digits (n div 10) \<noteq> []"
      "\<forall>c\<in>set (dec_digits (n div 10)). is_digit c"
      "digits_val (dec_digits (n div 10)) = n div 10" by auto
    have "0 \<le> n mod 10" "n mod 10 < 10" by simp_all
    with digit_char_props[of "n mod 10"] have dc: "is_digit (digit_char (n mod 10))"
      "digit_val (digit_char (n mod 10)) = n mod 10" by auto
    from False ih dc show ?thesis
      by (subst (1 2 3) dec_digits.simps) (simp add: digits_val_snoc)
  qed
qed

lemma digits_us_all:
  "\<forall>c\<in>set s. is_digit c \<Longrightarrow> digits_us s = (s, [])"
  by (induction s rule: digits_us.induct) auto

lemma digitpart_all:
  "\<forall>c\<in>set s. is_digit c \<Longrightarrow> digitpart s = (s, [])"
  by (cases s) (simp_all add: digitpart_def digits_us_all)

lemma dropWhile_id: "s = [] \<or> \<not> P (hd s) \<Longrightarrow> dropWhile P s = s"
  by (cases s) auto

lemma py_strip_id:
  "s = [] \<or> (\<not> py_isspace (hd s) \<and> \<not> py_isspace (last s)) \<Longrightarrow> py_strip s = s"
  by (cases "s = []") (simp_all add: py_strip_def dropWhile_id hd_rev)

lemma num_strip_id:
  "s = [] \<or> (\<not> py_numspace (hd s) \<and> \<not> py_numspace (last s)) \<Longrightarrow> num_strip s = s"
  by (cases "s = []") (simp_all add: num_strip_def dropWhile_id hd_rev)

lemma digit_not_space: "is_digit c \<Longrightarrow> \<not> py_isspace c \<and> \<not> py_numspace c"
  by (auto simp: is_digit_def py_isspace_def py_numspace_def)

lemma digit_facts:
  "is_digit c \<Longrightarrow> c \<noteq> CHR '','' \<and> c \<noteq> CHR ''-'' \<and> c \<noteq> CHR ''+'' \<and> c \<noteq> CHR 0x0A \<and> c \<noteq> CHR 0x0D
     \<and> py_upper_char c = c \<and> py_lower_char c = c \<and> c \<noteq> CHR ''C'' \<and> c \<noteq> CHR ''S''
     \<and> c \<noteq> CHR ''i'' \<and> c \<noteq> CHR ''n''"
  by (auto simp: is_digit_def py_upper_char_def py_lower_char_def)


lemma scan_float_digits:
  assumes "r \<noteq> []" "\<forall>c\<in>set r. is_digit c"
  shows "scan_float r = Some (LitNum False (digits_val r) 0)"
    and "scan_float (CHR ''-'' # r) = Some (LitNum True (digits_val r) 0)"
proof -
  from assms have hd: "is_digit (hd r)" and lst: "is_digit (last r)" by auto
  from assms obtain c cs where r: "r = c # cs" and c: "is_digit c" by (cases r) auto
  have strip1: "num_strip r = r"
    using assms(1) hd lst by (intro num_strip_id) (simp add: digit_not_space)
  have ns: "\<not> py_numspace (last r)" using digit_not_space[OF lst] by simp
  have ms: "\<not> py_numspace CHR ''-''" by (simp add: py_numspace_def)
  have strip2: "num_strip (CHR ''-'' # r) = CHR ''-'' # r"
    using assms(1) ns ms by (intro num_strip_id) simp
  have sign1: "take_sign r = (False, r)"
    using digit_facts[OF c] by (simp add: take_sign_def r)
  have sign2: "take_sign (CHR ''-'' # r) = (True, r)"
    by (simp add: take_sign_def)
  have w: "map py_lower_char r \<noteq> ''inf''" "map py_lower_char r \<noteq> ''infinity''"
    "map py_lower_char r \<noteq> ''nan''"
    using digit_facts[OF c] by (auto simp: r)
  have dp: "digitpart r = (r, [])" using assms(2) by (rule digitpart_all)
  show "scan_float r = Some (LitNum False (digits_val r) 0)"
    using assms(1) w by (simp add: scan_float_def strip1 sign1 dp)
  show "scan_float (CHR ''-'' # r) = Some (LitNum True (digits_val r) 0)"
    using assms(1) w by (simp add: scan_float_def strip2 sign2 dp)
qed

lemma scan_float_str_int:
  "scan_float (str_int n) = Some (LitNum (n < 0) \<bar>n\<bar> 0)"
proof (cases "n < 0")
  case True
  then have "0 \<le> - n" by simp
  from dec_digits_props[OF this] scan_float_digits(2)[of "dec_digits (- n)"] True
  show ?thesis by (simp add: str_int_def)
next
  case False
  then have "0 \<le> n" by simp
  from dec_digits_props[OF this] scan_float_digits(1)[of "dec_digits n"] False
  show ?thesis by (simp add: str_int_def)
qed

lemma div_half_even_one: "div_half_even n 1 = n"
  by (simp add: div_half_even_def)

lemma binade_int:
  assumes "0 < a"
  shows "binade a 1 = bitlen a - 1"
proof -
  from bitlen_bounds[OF assms] have lo: "2 ^ nat (bitlen a - 1) \<le> a" by simp
  from assms have "1 \<le> bitlen a" by (simp add: bitlen_alt_def)
  then have "nat (- (bitlen a - 1)) = 0" by simp
  moreover have "bitlen 1 = 1" by (subst compute_bitlen) simp
  ultimately show ?thesis using lo by (simp add: binade_def Let_def)
qed

lemma round_ratio_pos:
  assumes a: "0 < a" and le: "a \<le> 2 ^ 53"
  shows "round_ratio a 1 = Fin (of_int a)" and "round_ratio (- a) 1 = Fin (- of_int a)"
proof -
  define e where "e = bitlen a - 1"
  from a have e0: "0 \<le> e" by (simp add: e_def bitlen_alt_def)
  have bla: "bitlen a = e + 1" by (simp add: e_def)
  from bitlen_bounds[OF a] have lo: "2 ^ nat e \<le> a"
    by (simp add: e_def)
  from lo le have p: "(2::int) ^ nat e \<le> 2 ^ 53" by simp
  have "nat e \<le> 53" by (rule power_le_imp_le_exp[OF _ p]) simp
  with e0 have e53: "e \<le> 53" by simp
  have u: "max (binade a 1 - 52) (- 1074) = e - 52"
    using e0 by (simp add: binade_int[OF a] e_def)
  have core: "bitlen (div_half_even (a * 2 ^ nat (- (e - 52))) (1 * 2 ^ nat (e - 52))) + (e - 52) \<le> 1024
     \<and> (of_int (div_half_even (a * 2 ^ nat (- (e - 52))) (1 * 2 ^ nat (e - 52))) :: rat) * 2 powi (e - 52)
         = of_int a"
  proof (cases "e = 53")
    case True
    with lo le have a53: "a = 2 ^ 53" by simp
    have bl: "bitlen ((2::int) ^ 52) = 53" using bitlen_pow2[of 1 52] by (simp add: bitlen_alt_def)
    have m: "div_half_even a 2 = 2 ^ 52" by (simp add: a53 div_half_even_def)
    show ?thesis using True m bl by (simp add: a53)
  next
    case False
    with e53 have le52: "e \<le> 52" by simp
    then have un: "nat (e - 52) = 0" and nn: "nat (- (e - 52)) = nat (52 - e)" by simp_all
    have bl: "bitlen (a * 2 ^ nat (52 - e)) = bitlen a + (52 - e)"
      using bitlen_pow2[OF a, of "nat (52 - e)"] le52 by simp
    have one: "(2::rat) ^ nat (52 - e) * 2 powi (e - 52) = 1"
    proof -
      have "(2::rat) ^ nat (52 - e) = 2 powi (52 - e)" using le52 by (simp add: power_int_def)
      moreover have "(2::rat) powi (52 - e) * 2 powi (e - 52) = 2 powi ((52 - e) + (e - 52))"
        by (rule power_int_add[symmetric]) simp
      ultimately show ?thesis by simp
    qed
    have "(of_int (a * 2 ^ nat (52 - e)) :: rat) * 2 powi (e - 52)
            = of_int a * (2 ^ nat (52 - e) * 2 powi (e - 52))"
      by (simp add: mult.assoc)
    with one have val: "(of_int (a * 2 ^ nat (52 - e)) :: rat) * 2 powi (e - 52) = of_int a"
      by simp
    show ?thesis
      unfolding un nn using val e53 by (simp add: div_half_even_one bl bla)
  qed
  from a have na: "\<bar>a\<bar> = a" "\<bar>- a\<bar> = a" "a \<noteq> 0" "- a \<noteq> 0" "\<not> - a > 0" by simp_all
  from core have c1: "\<not> bitlen (div_half_even (a * 2 ^ nat (- (e - 52))) (1 * 2 ^ nat (e - 52))) + (e - 52) > 1024"
    by simp
  from core have c2: "(of_int (div_half_even (a * 2 ^ nat (- (e - 52))) (1 * 2 ^ nat (e - 52))) :: rat) * 2 powi (e - 52)
         = of_int a" by simp
  show "round_ratio a 1 = Fin (of_int a)"
    unfolding round_ratio_def Let_def na u using a c1 c2 by simp
  have c3: "(of_int (- div_half_even (a * 2 ^ nat (- (e - 52))) (1 * 2 ^ nat (e - 52))) :: rat) * 2 powi (e - 52)
         = - of_int a" using c2 by simp
  show "round_ratio (- a) 1 = Fin (- of_int a)"
    unfolding round_ratio_def Let_def na u using a c1 c3 by simp
qed

lemma round_ratio_exact:
  assumes "\<bar>n\<bar> \<le> 2 ^ 53"
  shows "round_ratio n 1 = Fin (of_int n)"
proof -
  consider "n = 0" | "0 < n" | "n < 0" by linarith
  then show ?thesis
  proof cases
    case 1
    then show ?thesis by (simp add: round_ratio_def)
  next
    case 2
    with assms round_ratio_pos(1)[of n] show ?thesis by simp
  next
    case 3
    with assms round_ratio_pos(2)[of "- n"] show ?thesis by simp
  qed
qed

lemma float_exact_iff: "float_exact n = (round_ratio n 1 = Fin (of_int n))"
  by (auto simp: float_exact_def py_float_of_int_def split: pyfloat.splits)

lemma float_exact_small: "\<bar>n\<bar> \<le> 2 ^ 53 \<Longrightarrow> float_exact n"
  by (simp add: float_exact_iff round_ratio_exact)

lemma int_float_str_roundtrip:
  assumes "float_exact n"
  shows "int_float_str (str_int n) = Inr n"
proof -
  have "float_of_lit (LitNum (n < 0) \<bar>n\<bar> 0) = round_ratio n 1"
    by (simp add: abs_if)
  with assms show ?thesis
    by (simp add: int_float_str_def py_float_of_str_def scan_float_str_int float_exact_iff)
qed

section \<open>Rounding stays in range\<close>

text \<open>Rounding to a double never leaves an interval \<open>[- 2 ^ k, 2 ^ k]\<close> with
  \<open>k \<le> 1023\<close>: the bounds are doubles themselves.\<close>

lemma div_half_even_le:
  assumes "0 < d" "n \<le> N * d"
  shows "div_half_even n d \<le> N"
proof (cases "n = N * d")
  case True
  with assms show ?thesis by (simp add: div_half_even_def)
next
  case False
  with assms have "n < N * d" by simp
  have "d * (n div d) = n - n mod d" by (simp add: minus_mod_eq_mult_div)
  moreover from assms(1) have "0 \<le> n mod d" by simp
  ultimately have "d * (n div d) < d * N" using \<open>n < N * d\<close> by (simp add: mult.commute)
  with assms(1) have "n div d < N" by (simp add: mult_less_cancel_left_pos)
  then show ?thesis by (auto simp: div_half_even_def Let_def)
qed

lemma div_half_even_nonneg:
  assumes "0 < d" "0 \<le> n"
  shows "0 \<le> div_half_even n d"
proof -
  from assms have "0 \<le> n div d" by (simp add: pos_imp_zdiv_nonneg_iff)
  then show ?thesis by (auto simp: div_half_even_def Let_def)
qed

lemma bitlen_le_pow:
  assumes "0 \<le> m" "m \<le> 2 ^ j"
  shows "bitlen m \<le> int j + 1"
proof (cases "m = 0")
  case True
  then show ?thesis by simp
next
  case False
  with assms have m: "0 < m" by simp
  from bitlen_bounds[OF m] have "(2::int) ^ nat (bitlen m - 1) \<le> m" by simp
  with assms(2) have "(2::int) ^ nat (bitlen m - 1) \<le> 2 ^ j" by linarith
  then have "nat (bitlen m - 1) \<le> j" by (rule power_le_imp_le_exp[rotated]) simp
  then show ?thesis by simp
qed

lemma binade_lower:
  assumes a: "0 < a" and d: "0 < d"
  shows "(2::rat) powi (binade a d) \<le> of_int a / of_int d"
proof -
  define e where "e = bitlen a - bitlen d"
  have pos: "(0::rat) < of_int d" using d by simp
  show ?thesis
  proof (cases "a * 2 ^ nat (- e) < d * 2 ^ nat e")
    case True
    then have b: "binade a d = e - 1" by (simp add: binade_def e_def Let_def)
    from bitlen_bounds[OF a] have lo: "2 ^ nat (bitlen a - 1) \<le> a" by simp
    from bitlen_bounds[OF d] have hi: "d < 2 ^ nat (bitlen d)" by simp
    from a have la: "1 \<le> bitlen a" by (simp add: bitlen_alt_def)
    from d have ld: "1 \<le> bitlen d" by (simp add: bitlen_alt_def)
    have "(2::rat) powi (e - 1) * of_int d \<le> 2 powi (e - 1) * 2 powi (bitlen d)"
    proof -
      from hi have "(of_int d :: rat) \<le> of_int (2 ^ nat (bitlen d))"
        by (simp only: of_int_le_iff)
      also have "\<dots> = 2 powi (bitlen d)" using ld by (simp add: power_int_def)
      finally show ?thesis by (simp add: mult_left_mono)
    qed
    also have "\<dots> = 2 powi (bitlen a - 1)"
      by (subst power_int_add[symmetric]) (simp_all add: e_def)
    also have "\<dots> = of_int (2 ^ nat (bitlen a - 1))" using la by (simp add: power_int_def)
    also have "\<dots> \<le> of_int a" using lo by (simp only: of_int_le_iff)
    finally have "(2::rat) powi (e - 1) * of_int d \<le> of_int a" .
    with pos show ?thesis by (simp add: b pos_le_divide_eq)
  next
    case False
    then have b: "binade a d = e" by (simp add: binade_def e_def Let_def)
    from False have ge: "d * 2 ^ nat e \<le> a * 2 ^ nat (- e)" by simp
    show ?thesis
    proof (cases "0 \<le> e")
      case True
      with ge have "d * 2 ^ nat e \<le> a" by simp
      then have "(of_int (d * 2 ^ nat e) :: rat) \<le> of_int a" by (simp only: of_int_le_iff)
      then have "(2::rat) powi e * of_int d \<le> of_int a"
        using True by (simp add: power_int_def mult.commute)
      with pos show ?thesis by (simp add: b pos_le_divide_eq)
    next
      case False
      then have ne: "nat e = 0" and pe: "0 \<le> - e" by simp_all
      from ge ne have "d \<le> a * 2 ^ nat (- e)" by simp
      then have "(of_int d :: rat) \<le> of_int (a * 2 ^ nat (- e))" by (simp only: of_int_le_iff)
      then have "(of_int d :: rat) \<le> of_int a * 2 powi (- e)"
        using pe by (simp add: power_int_def)
      then have "(of_int d :: rat) * 2 powi e \<le> (of_int a * 2 powi (- e)) * 2 powi e"
        by (rule mult_right_mono) simp
      moreover have "(2::rat) powi (- e) * 2 powi e = 1"
        by (subst power_int_add[symmetric]) simp_all
      ultimately have "(of_int d :: rat) * 2 powi e \<le> of_int a" by (simp add: mult.assoc)
      then have "(2::rat) powi e * of_int d \<le> of_int a" by (simp add: mult.commute)
      with pos show ?thesis by (simp add: b pos_le_divide_eq)
    qed
  qed
qed


lemma round_ratio_bound:
  assumes d: "0 < d" and k: "k \<le> 1023" and le: "\<bar>n\<bar> \<le> 2 ^ k * d"
  shows "\<exists>v. round_ratio n d = Fin v \<and> \<bar>v\<bar> \<le> 2 ^ k"
proof (cases "n = 0")
  case True
  then show ?thesis by (simp add: round_ratio_def)
next
  case False
  define a where "a = \<bar>n\<bar>"
  from False have a: "0 < a" by (simp add: a_def)
  define e where "e = binade a d"
  define u where "u = max (e - 52) (- 1074)"
  define j where "j = nat (int k - u)"
  define m where "m = div_half_even (a * 2 ^ nat (- u)) (d * 2 ^ nat u)"
  have posd: "(0::rat) < of_int d" using d by simp
  have "(of_int a :: rat) \<le> of_int (2 ^ k * d)" using le by (simp only: a_def of_int_le_iff)
  then have "(of_int a :: rat) / of_int d \<le> 2 ^ k" using posd by (simp add: pos_divide_le_eq)
  with binade_lower[OF a d] have "(2::rat) powi e \<le> 2 ^ k" by (simp add: e_def)
  then have "(2::rat) powi e \<le> 2 powi (int k)" by simp
  then have ek: "e \<le> int k" by (rule power_int_le_imp_le_exp[rotated]) simp_all
  then have uk: "u \<le> int k" by (simp add: u_def)
  then have ju: "int j = int k - u" by (simp add: j_def)
  have ex: "k + nat (- u) = j + nat u" using ju by linarith
  have d': "0 < d * 2 ^ nat u" using d by simp
  have "a * 2 ^ nat (- u) \<le> (2 ^ k * d) * 2 ^ nat (- u)"
    using le by (simp add: a_def)
  also have "\<dots> = d * (2 ^ (k + nat (- u)))" by (simp add: power_add)
  also have "\<dots> = 2 ^ j * (d * 2 ^ nat u)" by (simp add: ex power_add)
  finally have nle: "a * 2 ^ nat (- u) \<le> 2 ^ j * (d * 2 ^ nat u)" .
  from div_half_even_le[OF d' nle] have mN: "m \<le> 2 ^ j" by (simp add: m_def)
  from a have "0 \<le> a * 2 ^ nat (- u)" by simp
  from div_half_even_nonneg[OF d' this] have m0: "0 \<le> m" by (simp add: m_def)
  from bitlen_le_pow[OF m0 mN] ju k have nov: "\<not> bitlen m + u > 1024" by simp
  have "(of_int m :: rat) * 2 powi u \<le> of_int (2 ^ j) * 2 powi u"
    using mN by (intro mult_right_mono) (simp_all only: of_int_le_iff zero_le_power_int zero_le_numeral)
  also have "\<dots> = 2 powi (int j) * 2 powi u" by simp
  also have "\<dots> = 2 powi (int j + u)" by (rule power_int_add[symmetric]) simp
  also have "\<dots> = 2 ^ k" by (simp add: ju)
  finally have vb: "(of_int m :: rat) * 2 powi u \<le> 2 ^ k" .
  have v0: "(0::rat) \<le> of_int m * 2 powi u" using m0 by simp
  have "round_ratio n d = Fin (of_int (if n > 0 then m else - m) * 2 powi u)"
    using False nov
    by (simp add: round_ratio_def Let_def a_def[symmetric] e_def[symmetric] u_def[symmetric]
        m_def[symmetric])
  moreover have "\<bar>of_int (if n > 0 then m else - m) * 2 powi u :: rat\<bar> \<le> 2 ^ k"
    using vb v0 by (simp add: abs_mult abs_if)
  ultimately show ?thesis by blast
qed

lemma round_double_bound:
  assumes k: "k \<le> 1023" and le: "\<bar>q\<bar> \<le> 2 ^ k"
  shows "\<exists>v. round_double q = Fin v \<and> \<bar>v\<bar> \<le> 2 ^ k"
proof -
  obtain n d where nd: "quotient_of q = (n, d)" by (cases "quotient_of q")
  then have d: "0 < d" by (rule quotient_of_denom_pos)
  from nd have q: "q = of_int n / of_int d" by (rule quotient_of_div)
  have posd: "(0::rat) < of_int d" using d by simp
  from le have "\<bar>of_int n :: rat\<bar> \<le> 2 ^ k * of_int d"
    using posd by (simp add: q abs_divide pos_divide_le_eq)
  then have "(of_int \<bar>n\<bar> :: rat) \<le> of_int (2 ^ k * d)" by simp
  then have "\<bar>n\<bar> \<le> 2 ^ k * d" by (simp only: of_int_le_iff)
  from round_ratio_bound[OF d k this] show ?thesis by (simp add: round_double_def nd)
qed


lemma truediv_unit:
  assumes "0 \<le> i" "i < s"
  shows "\<exists>q. py_truediv i s = Inr (Fin q) \<and> \<bar>q\<bar> \<le> 1"
proof -
  from assms have s: "0 < s" and le: "\<bar>i\<bar> \<le> 2 ^ 0 * s" by simp_all
  from round_ratio_bound[OF s _ le] obtain v where "round_ratio i s = Fin v" "\<bar>v\<bar> \<le> 1"
    by auto
  with s show ?thesis by (simp add: py_truediv_def)
qed

lemma angle_finite:
  assumes "\<bar>q\<bar> \<le> 1"
  shows "\<exists>t. fmul (fmul (Fin 2) (Fin math_pi)) (Fin q) = Fin t"
proof -
  have "\<bar>2 * math_pi\<bar> \<le> 2 ^ 3" by (simp add: math_pi_def)
  from round_double_bound[OF _ this] obtain w where w: "round_double (2 * math_pi) = Fin w"
    "\<bar>w\<bar> \<le> 2 ^ 3" by auto
  have "\<bar>w * q\<bar> \<le> 2 ^ 3"
    using mult_mono[of "\<bar>w\<bar>" "2 ^ 3" "\<bar>q\<bar>" 1] w(2) assms by (simp add: abs_mult)
  from round_double_bound[OF _ this] obtain t where "round_double (w * q) = Fin t" by auto
  with w show ?thesis by simp
qed

lemma pow_ratio: "(of_int (x * 2 ^ nat (- u)) :: rat) / of_int (y * 2 ^ nat u) = (of_int x / of_int y) / 2 powi u"
proof (cases "0 \<le> u")
  case True
  then show ?thesis by (simp add: power_int_def)
next
  case False
  then have "nat u = 0" "0 \<le> - u" by simp_all
  moreover have "(2::rat) powi u = 1 / 2 powi (- u)" by (simp add: power_int_minus field_simps)
  ultimately show ?thesis by (simp add: power_int_def)
qed

lemma binade_upper:
  assumes a: "0 < a" and d: "0 < d"
  shows "of_int a / of_int d < (2::rat) powi (binade a d + 1)"
proof -
  define e where "e = bitlen a - bitlen d"
  have pos: "(0::rat) < of_int d" using d by simp
  have y: "(0::rat) < of_int (d * 2 ^ nat e)" using d by simp
  have cond: "(a * 2 ^ nat (- e) < d * 2 ^ nat e) = (of_int a / of_int d < (2::rat) powi e)"
  proof -
    have "(a * 2 ^ nat (- e) < d * 2 ^ nat e) = ((of_int (a * 2 ^ nat (- e)) :: rat) < of_int (d * 2 ^ nat e))"
      by (simp only: of_int_less_iff)
    also have "\<dots> = ((of_int (a * 2 ^ nat (- e)) :: rat) / of_int (d * 2 ^ nat e) < 1)"
      using y by (simp only: pos_divide_less_eq) simp
    also have "\<dots> = ((of_int a / of_int d) / 2 powi e < (1::rat))" by (simp only: pow_ratio)
    also have "\<dots> = (of_int a / of_int d < (2::rat) powi e)"
      by (rule divide_less_eq_1_pos) simp
    finally show ?thesis .
  qed
  show ?thesis
  proof (cases "a * 2 ^ nat (- e) < d * 2 ^ nat e")
    case True
    then have "binade a d = e - 1" by (simp add: binade_def e_def Let_def)
    with True cond show ?thesis by simp
  next
    case False
    then have b: "binade a d = e" by (simp add: binade_def e_def Let_def)
    from bitlen_bounds[OF a] have hi: "a < 2 ^ nat (bitlen a)" by simp
    from bitlen_bounds[OF d] have lo: "2 ^ nat (bitlen d - 1) \<le> d" by simp
    from a have la: "1 \<le> bitlen a" by (simp add: bitlen_alt_def)
    from d have ld: "1 \<le> bitlen d" by (simp add: bitlen_alt_def)
    have "(of_int a :: rat) < of_int (2 ^ nat (bitlen a))" using hi by (simp only: of_int_less_iff)
    also have "\<dots> = 2 powi (bitlen a)" using la by (simp add: power_int_def)
    also have "\<dots> = 2 powi (e + 1) * 2 powi (bitlen d - 1)"
      by (subst power_int_add[symmetric]) (simp_all add: e_def)
    also have "\<dots> = 2 powi (e + 1) * of_int (2 ^ nat (bitlen d - 1))"
      using ld by (simp add: power_int_def)
    also have "\<dots> \<le> 2 powi (e + 1) * of_int d"
      using lo by (intro mult_left_mono) (simp_all only: of_int_le_iff zero_le_power_int zero_le_numeral)
    finally have "(of_int a :: rat) < 2 powi (e + 1) * of_int d" .
    with pos show ?thesis by (simp add: b pos_divide_less_eq)
  qed
qed


lemma div_half_even_ge:
  assumes "0 < d" "N * d \<le> n"
  shows "N \<le> div_half_even n d"
proof -
  from zdiv_mono1[OF assms(2) assms(1)] assms(1) have "N \<le> n div d" by simp
  then show ?thesis by (auto simp: div_half_even_def Let_def)
qed

lemma div_half_even_lt_half:
  assumes d: "0 < d" and h: "2 * n < (2 * N + 1) * d"
  shows "div_half_even n d \<le> N"
proof -
  define f where "f = n div d"
  define r where "r = n mod d"
  have n: "n = f * d + r" by (simp add: f_def r_def)
  have r: "0 \<le> r" "r < d" using d by (simp_all add: r_def)
  have fN: "f \<le> N"
  proof (rule ccontr)
    assume "\<not> f \<le> N"
    then have "N + 1 \<le> f" by simp
    then have "(N + 1) * d \<le> f * d" using d by (simp add: mult_right_mono)
    with n r have "(N + 1) * d \<le> n" by linarith
    then have "2 * ((N + 1) * d) \<le> 2 * n" by simp
    with h d show False by (simp add: algebra_simps)
  qed
  show ?thesis
  proof (cases "f = N")
    case True
    with h n have "2 * r < d" by (simp add: algebra_simps)
    then show ?thesis using True by (simp add: div_half_even_def Let_def f_def[symmetric] r_def[symmetric])
  next
    case False
    with fN have "f + 1 \<le> N" by simp
    then show ?thesis by (auto simp: div_half_even_def Let_def f_def[symmetric] r_def[symmetric])
  qed
qed

lemma div_half_even_ge_half:
  assumes d: "0 < d" and h: "(2 * K - 1) * d \<le> 2 * n" and ev: "even K"
  shows "K \<le> div_half_even n d"
proof -
  define f where "f = n div d"
  define r where "r = n mod d"
  have n: "n = f * d + r" by (simp add: f_def r_def)
  have r: "0 \<le> r" "r < d" using d by (simp_all add: r_def)
  have fK: "K - 1 \<le> f"
  proof (rule ccontr)
    assume "\<not> K - 1 \<le> f"
    then have "f + 1 \<le> K - 1" by simp
    then have "(f + 1) * d \<le> (K - 1) * d" using d by (simp only: mult_right_mono)
    with n r have "n < (K - 1) * d" by (simp add: algebra_simps)
    then have "2 * n < 2 * ((K - 1) * d)" by simp
    with h d show False by (simp add: algebra_simps)
  qed
  show ?thesis
  proof (cases "f = K - 1")
    case True
    with h n have "d \<le> 2 * r" by (simp add: algebra_simps)
    moreover from True ev have "odd f" by simp
    ultimately show ?thesis using True
      by (auto simp: div_half_even_def Let_def f_def[symmetric] r_def[symmetric])
  next
    case False
    with fK have "K \<le> f" by simp
    then show ?thesis by (auto simp: div_half_even_def Let_def f_def[symmetric] r_def[symmetric])
  qed
qed

lemma div_half_even_mult: "0 < d \<Longrightarrow> div_half_even (N * d) d = N"
  by (simp add: div_half_even_def)

lemma bitlen_mono: "0 \<le> m \<Longrightarrow> m \<le> n \<Longrightarrow> bitlen m \<le> bitlen n"
  by (simp add: bitlen_def floorlog_mono)

lemma bitlen_ge_pow:
  assumes "2 ^ j \<le> m"
  shows "int j + 1 \<le> bitlen m"
proof -
  have "bitlen (1 * 2 ^ j) = bitlen 1 + int j" by (rule bitlen_pow2) simp
  moreover have "bitlen 1 = 1" by (subst compute_bitlen) simp
  ultimately have "bitlen (2 ^ j) = int j + 1" by simp
  moreover have "bitlen (2 ^ j) \<le> bitlen m" using assms by (intro bitlen_mono) simp_all
  ultimately show ?thesis by simp
qed

text \<open>The parts of a rounding: the scaled numerator and denominator, and what their
  quotient is.\<close>

lemma round_ratio_unfold:
  assumes "n \<noteq> 0"
  shows "round_ratio n d =
     (if bitlen (div_half_even (\<bar>n\<bar> * 2 ^ nat (- max (binade \<bar>n\<bar> d - 52) (- 1074)))
                   (d * 2 ^ nat (max (binade \<bar>n\<bar> d - 52) (- 1074))))
           + max (binade \<bar>n\<bar> d - 52) (- 1074) > 1024
      then (if n > 0 then PInf else NInf)
      else Fin (of_int (if n > 0
                  then div_half_even (\<bar>n\<bar> * 2 ^ nat (- max (binade \<bar>n\<bar> d - 52) (- 1074)))
                         (d * 2 ^ nat (max (binade \<bar>n\<bar> d - 52) (- 1074)))
                  else - div_half_even (\<bar>n\<bar> * 2 ^ nat (- max (binade \<bar>n\<bar> d - 52) (- 1074)))
                         (d * 2 ^ nat (max (binade \<bar>n\<bar> d - 52) (- 1074))))
                * 2 powi max (binade \<bar>n\<bar> d - 52) (- 1074)))"
  using assms by (simp add: round_ratio_def Let_def)

lemma scaled_le:
  assumes d: "0 < d" and le: "(of_int a :: rat) / of_int d \<le> of_int N * 2 powi u"
  shows "a * 2 ^ nat (- u) \<le> N * (d * 2 ^ nat u)"
proof -
  have y: "(0::rat) < of_int (d * 2 ^ nat u)" using d by simp
  have p: "(0::rat) < 2 powi u" by simp
  from le have "(of_int a / of_int d) / 2 powi u \<le> (of_int N :: rat)"
    using p by (simp only: pos_divide_le_eq)
  then have "(of_int (a * 2 ^ nat (- u)) :: rat) / of_int (d * 2 ^ nat u) \<le> of_int N"
    by (simp only: pow_ratio)
  then have "(of_int (a * 2 ^ nat (- u)) :: rat) \<le> of_int N * of_int (d * 2 ^ nat u)"
    using y by (simp only: pos_divide_le_eq)
  then have "(of_int (a * 2 ^ nat (- u)) :: rat) \<le> of_int (N * (d * 2 ^ nat u))"
    by (simp only: of_int_mult)
  then show ?thesis by (simp only: of_int_le_iff)
qed

lemma scaled_ge:
  assumes d: "0 < d" and le: "of_int N * 2 powi u \<le> (of_int a :: rat) / of_int d"
  shows "N * (d * 2 ^ nat u) \<le> a * 2 ^ nat (- u)"
proof -
  have y: "(0::rat) < of_int (d * 2 ^ nat u)" using d by simp
  have p: "(0::rat) < 2 powi u" by simp
  from le have "(of_int N :: rat) \<le> (of_int a / of_int d) / 2 powi u"
    using p by (simp only: pos_le_divide_eq)
  then have "of_int N \<le> (of_int (a * 2 ^ nat (- u)) :: rat) / of_int (d * 2 ^ nat u)"
    by (simp only: pow_ratio)
  then have "of_int N * of_int (d * 2 ^ nat u) \<le> (of_int (a * 2 ^ nat (- u)) :: rat)"
    using y by (simp only: pos_le_divide_eq)
  then have "(of_int (N * (d * 2 ^ nat u)) :: rat) \<le> of_int (a * 2 ^ nat (- u))"
    by (simp only: of_int_mult)
  then show ?thesis by (simp only: of_int_le_iff)
qed


lemma powi_less_exp: "(2::rat) powi e < 2 powi n \<Longrightarrow> e < n"
proof (rule ccontr)
  assume a: "(2::rat) powi e < 2 powi n" and "\<not> e < n"
  then have "n \<le> e" by simp
  from power_int_increasing[OF this, of "2::rat"] a show False by simp
qed

lemma powi_le_exp: "(2::rat) powi e \<le> 2 powi n \<Longrightarrow> e \<le> n"
proof (rule ccontr)
  assume a: "(2::rat) powi e \<le> 2 powi n" and "\<not> e \<le> n"
  then have "n < e" by simp
  from power_int_strict_increasing[OF this, of "2::rat"] a show False by simp
qed

lemma round_ratio_le_double:
  assumes d: "0 < d" and M: "0 < M" and Mb: "bitlen M \<le> 53" and k: "- 1074 \<le> k"
    and fin: "bitlen M + k \<le> 1024"
    and le: "\<bar>of_int n / of_int d\<bar> \<le> (of_int M :: rat) * 2 powi k"
  shows "\<exists>v. round_ratio n d = Fin v \<and> \<bar>v\<bar> \<le> of_int M * 2 powi k"
proof (cases "n = 0")
  case True
  have "(0::rat) \<le> of_int M * 2 powi k" using M by simp
  with True show ?thesis by (simp add: round_ratio_def)
next
  case False
  define a where "a = \<bar>n\<bar>"
  from False have a: "0 < a" by (simp add: a_def)
  define e where "e = binade a d"
  define u where "u = max (e - 52) (- 1074)"
  define j where "j = nat (k - u)"
  define m where "m = div_half_even (a * 2 ^ nat (- u)) (d * 2 ^ nat u)"
  have posd: "(0::rat) < of_int d" using d by simp
  have q: "(of_int a :: rat) / of_int d \<le> of_int M * 2 powi k"
    using le posd by (simp add: a_def abs_divide)
  from bitlen_bounds[OF M] have "M < 2 ^ nat (bitlen M)" by simp
  then have "(of_int M :: rat) < of_int (2 ^ nat (bitlen M))" by (simp only: of_int_less_iff)
  moreover from M have "1 \<le> bitlen M" by (simp add: bitlen_alt_def)
  ultimately have Mlt: "(of_int M :: rat) < 2 powi (bitlen M)" by (simp add: power_int_def)
  have "(2::rat) powi e \<le> of_int M * 2 powi k" using binade_lower[OF a d] q by (simp add: e_def)
  also have "\<dots> < 2 powi (bitlen M) * 2 powi k" using Mlt by (simp add: mult_strict_right_mono)
  also have "\<dots> = 2 powi (bitlen M + k)" by (rule power_int_add[symmetric]) simp
  finally have "(2::rat) powi e < 2 powi (bitlen M + k)" .
  then have "e < bitlen M + k" by (rule powi_less_exp)
  with Mb k have uk: "u \<le> k" by (simp add: u_def)
  then have ju: "int j = k - u" by (simp add: j_def)
  have d': "0 < d * 2 ^ nat u" using d by simp
  have pj: "(of_int (M * 2 ^ j) :: rat) * 2 powi u = of_int M * 2 powi k"
  proof -
    have "(of_int (M * 2 ^ j) :: rat) * 2 powi u = of_int M * (2 powi (int j) * 2 powi u)"
      by simp
    also have "(2::rat) powi (int j) * 2 powi u = 2 powi (int j + u)"
      by (rule power_int_add[symmetric]) simp
    finally show ?thesis by (simp add: ju)
  qed
  from q have "(of_int a :: rat) / of_int d \<le> of_int (M * 2 ^ j) * 2 powi u"
    unfolding pj .
  from scaled_le[OF d this] have "a * 2 ^ nat (- u) \<le> (M * 2 ^ j) * (d * 2 ^ nat u)" .
  from div_half_even_le[OF d' this] have mN: "m \<le> M * 2 ^ j" by (simp add: m_def)
  from a have "0 \<le> a * 2 ^ nat (- u)" by simp
  from div_half_even_nonneg[OF d' this] have m0: "0 \<le> m" by (simp add: m_def)
  have "bitlen m \<le> bitlen (M * 2 ^ j)" using m0 mN by (rule bitlen_mono)
  also have "\<dots> = bitlen M + int j" by (rule bitlen_pow2[OF M])
  finally have "bitlen m + u \<le> bitlen M + k" by (simp add: ju)
  with fin have nov: "\<not> bitlen m + u > 1024" by simp
  have "(of_int m :: rat) * 2 powi u \<le> of_int (M * 2 ^ j) * 2 powi u"
    using mN by (intro mult_right_mono) (simp_all only: of_int_le_iff zero_le_power_int zero_le_numeral)
  then have vb: "(of_int m :: rat) * 2 powi u \<le> of_int M * 2 powi k" unfolding pj .
  have v0: "(0::rat) \<le> of_int m * 2 powi u" using m0 by simp
  have "round_ratio n d = Fin (of_int (if n > 0 then m else - m) * 2 powi u)"
    using nov unfolding round_ratio_unfold[OF False] a_def[symmetric] e_def[symmetric]
      u_def[symmetric] m_def[symmetric] by simp
  moreover have "\<bar>of_int (if n > 0 then m else - m) * 2 powi u :: rat\<bar> \<le> of_int M * 2 powi k"
    using vb v0 by (simp add: abs_mult abs_if)
  ultimately show ?thesis by blast
qed

text \<open>A finite result has at most 53 significant bits.\<close>

lemma round_ratio_form:
  assumes d: "0 < d" and r: "round_ratio n d = Fin v"
  shows "\<exists>m u. \<bar>v\<bar> = of_int m * 2 powi u \<and> 0 \<le> m \<and> m \<le> 2 ^ 53 \<and> - 1074 \<le> u
               \<and> bitlen m + u \<le> 1024"
proof (cases "n = 0")
  case True
  with r have "v = 0" by (simp add: round_ratio_def)
  then have "\<bar>v\<bar> = of_int 0 * 2 powi 0 \<and> (0::int) \<le> 0 \<and> (0::int) \<le> 2 ^ 53 \<and> - 1074 \<le> (0::int)
      \<and> bitlen 0 + 0 \<le> 1024" by simp
  then show ?thesis by blast
next
  case False
  define a where "a = \<bar>n\<bar>"
  from False have a: "0 < a" by (simp add: a_def)
  define e where "e = binade a d"
  define u where "u = max (e - 52) (- 1074)"
  define m where "m = div_half_even (a * 2 ^ nat (- u)) (d * 2 ^ nat u)"
  have d': "0 < d * 2 ^ nat u" using d by simp
  from a have "0 \<le> a * 2 ^ nat (- u)" by simp
  from div_half_even_nonneg[OF d' this] have m0: "0 \<le> m" by (simp add: m_def)
  have eu: "e + 1 \<le> 53 + u" by (simp add: u_def)
  have "(of_int a :: rat) / of_int d \<le> 2 powi (e + 1)"
    using binade_upper[OF a d] by (simp add: e_def)
  also have "(2::rat) powi (e + 1) \<le> 2 powi (53 + u)"
    using eu by (intro power_int_increasing) simp_all
  also have "(2::rat) powi (53 + u) = 2 powi 53 * 2 powi u"
    by (rule power_int_add) simp
  also have "\<dots> = of_int (2 ^ 53) * 2 powi u" by simp
  finally have "(of_int a :: rat) / of_int d \<le> of_int (2 ^ 53) * 2 powi u" .
  from scaled_le[OF d this] have "a * 2 ^ nat (- u) \<le> 2 ^ 53 * (d * 2 ^ nat u)" .
  from div_half_even_le[OF d' this] have m53: "m \<le> 2 ^ 53" by (simp add: m_def)
  from r have rr: "(if bitlen m + u > 1024 then (if n > 0 then PInf else NInf)
       else Fin (of_int (if n > 0 then m else - m) * 2 powi u)) = Fin v"
    unfolding round_ratio_unfold[OF False] a_def[symmetric] e_def[symmetric]
      u_def[symmetric] m_def[symmetric] .
  then have nov: "bitlen m + u \<le> 1024" by (auto split: if_splits)
  with rr have "v = of_int (if n > 0 then m else - m) * 2 powi u" by simp
  moreover have "(0::rat) \<le> of_int m * 2 powi u" using m0 by simp
  ultimately have "\<bar>v\<bar> = of_int m * 2 powi u"
    by (cases "n > 0") (simp_all add: abs_of_nonneg)
  moreover have "- 1074 \<le> u" by (simp add: u_def)
  ultimately show ?thesis using m0 m53 nov by blast
qed


lemma bitlen_lt_pow:
  assumes "0 \<le> m" "m < 2 ^ j"
  shows "bitlen m \<le> int j"
proof (cases "m = 0")
  case True
  then show ?thesis by simp
next
  case False
  with assms have m: "0 < m" by simp
  from bitlen_bounds[OF m] have "(2::int) ^ nat (bitlen m - 1) \<le> m" by simp
  with assms(2) have "(2::int) ^ nat (bitlen m - 1) < 2 ^ j" by linarith
  then have "nat (bitlen m - 1) < j" by (rule power_less_imp_less_exp[rotated]) simp
  then show ?thesis by simp
qed

lemma float_limit_facts:
  "0 < float_limit"
  "2 * float_limit = (2 * 2 ^ 53 - 1) * 2 ^ 971"
  "2 * float_limit = (2 * (2 ^ 53 - 1) + 1) * 2 ^ 971"
  "float_limit < 2 ^ 1024"
  "(2 ^ 53 - 1) * 2 ^ 971 < float_limit"
  "(2::int) ^ 1023 \<le> (2 ^ 53 - 1) * 2 ^ 971"
  by (simp_all add: float_limit_def)

lemma round_ratio_finite_iff:
  assumes d: "0 < d"
  shows "(\<exists>v. round_ratio n d = Fin v) = (\<bar>n\<bar> < float_limit * d)"
proof (cases "n = 0")
  case True
  with d float_limit_facts(1) show ?thesis by (simp add: round_ratio_def)
next
  case False
  define a where "a = \<bar>n\<bar>"
  from False have a: "0 < a" by (simp add: a_def)
  define e where "e = binade a d"
  define u where "u = max (e - 52) (- 1074)"
  define m where "m = div_half_even (a * 2 ^ nat (- u)) (d * 2 ^ nat u)"
  define P :: int where "P = 2 ^ 971"
  define K :: int where "K = 2 ^ 53"
  have P0: "0 < P" by (simp add: P_def)
  have posd: "(0::rat) < of_int d" using d by simp
  have d': "0 < d * 2 ^ nat u" using d by simp
  from a have "0 \<le> a * 2 ^ nat (- u)" by simp
  from div_half_even_nonneg[OF d' this] have m0: "0 \<le> m" by (simp add: m_def)
  have rr: "round_ratio n d = (if bitlen m + u > 1024 then (if n > 0 then PInf else NInf)
       else Fin (of_int (if n > 0 then m else - m) * 2 powi u))"
    unfolding round_ratio_unfold[OF False] a_def[symmetric] e_def[symmetric]
      u_def[symmetric] m_def[symmetric] ..
  have iff: "(\<exists>v. round_ratio n d = Fin v) = (bitlen m + u \<le> 1024)"
    unfolding rr by auto
  have lo: "(2::rat) powi e \<le> of_int a / of_int d" using binade_lower[OF a d] by (simp add: e_def)
  have hi: "(of_int a :: rat) / of_int d < 2 powi (e + 1)" using binade_upper[OF a d] by (simp add: e_def)
  have twoT: "2 * float_limit = (2 * K - 1) * P" "2 * float_limit = (2 * (K - 1) + 1) * P"
    using float_limit_facts(2,3) by (simp_all only: P_def K_def)
  have maxlt: "(K - 1) * P < float_limit" using float_limit_facts(5) by (simp only: P_def K_def)
  have maxge: "2 ^ 1023 \<le> (K - 1) * P" using float_limit_facts(6) by (simp only: P_def K_def)
  show ?thesis
  proof (cases "a < float_limit * d")
    case True
    have "\<exists>v. round_ratio n d = Fin v"
    proof (cases "a \<le> ((K - 1) * P) * d")
      case le: True
      have M: "0 < K - 1" by (simp add: K_def)
      have "K - 1 < 2 ^ 53" by (simp add: K_def)
      with M have Mb: "bitlen (K - 1) \<le> 53" using bitlen_lt_pow[of "K - 1" 53] by simp
      have "(of_int a :: rat) \<le> of_int (((K - 1) * P) * d)" using le by (simp only: of_int_le_iff)
      then have "(of_int a :: rat) / of_int d \<le> of_int ((K - 1) * P)"
        using posd by (simp add: pos_divide_le_eq)
      also have "(of_int ((K - 1) * P) :: rat) = of_int (K - 1) * 2 powi 971"
        by (simp add: P_def)
      finally have "\<bar>of_int n / of_int d\<bar> \<le> (of_int (K - 1) :: rat) * 2 powi 971"
        using posd by (simp add: a_def abs_divide)
      from round_ratio_le_double[OF d M Mb _ _ this] Mb show ?thesis by auto
    next
      case gt: False
      then have gt': "((K - 1) * P) * d < a" by simp
      have "(of_int a :: rat) < of_int (float_limit * d)" using True by (simp only: of_int_less_iff)
      then have "(of_int a :: rat) / of_int d < of_int float_limit"
        using posd by (simp add: pos_divide_less_eq)
      also have "\<dots> < of_int (2 ^ 1024)" using float_limit_facts(4) by (simp only: of_int_less_iff)
      also have "\<dots> = 2 powi 1024" by simp
      finally have "(2::rat) powi e < 2 powi 1024" using lo by simp
      then have e1: "e < 1024" by (rule powi_less_exp)
      have "(of_int (2 ^ 1023 * d) :: rat) \<le> of_int (((K - 1) * P) * d)"
        using maxge d by (simp only: of_int_le_iff mult_right_mono)
      also have "\<dots> < of_int a" using gt' by (simp only: of_int_less_iff)
      finally have "(of_int (2 ^ 1023) :: rat) < of_int a / of_int d"
        using posd by (simp add: pos_less_divide_eq)
      then have "(2::rat) powi 1023 < of_int a / of_int d" by simp
      with hi have "(2::rat) powi 1023 < 2 powi (e + 1)" by simp
      then have "1023 < e + 1" by (rule powi_less_exp)
      with e1 have e: "e = 1023" by simp
      then have u: "u = 971" by (simp add: u_def)
      have mm: "m = div_half_even a (d * P)" by (simp add: m_def u P_def)
      have "2 * a < (2 * float_limit) * d" using True by simp
      also have "\<dots> = (2 * (K - 1) + 1) * (d * P)" unfolding twoT(2) by (simp only: mult_ac)
      finally have "2 * a < (2 * (K - 1) + 1) * (d * P)" .
      from div_half_even_lt_half[OF _ this] d P0 have "m \<le> K - 1" by (simp add: mm)
      then have "m < 2 ^ 53" by (simp add: K_def)
      from bitlen_lt_pow[OF m0 this] have "bitlen m + u \<le> 1024" by (simp add: u)
      with iff show ?thesis by simp
    qed
    with True show ?thesis by (simp add: a_def)
  next
    case False
    then have ge: "float_limit * d \<le> a" by simp
    have "(of_int (2 ^ 1023 * d) :: rat) \<le> of_int (((K - 1) * P) * d)"
      using maxge d by (simp only: of_int_le_iff mult_right_mono)
    also have "\<dots> < of_int (float_limit * d)" using maxlt d by (simp only: of_int_less_iff mult_strict_right_mono)
    also have "\<dots> \<le> of_int a" using ge by (simp only: of_int_le_iff)
    finally have "(of_int (2 ^ 1023) :: rat) < of_int a / of_int d"
      using posd by (simp add: pos_less_divide_eq)
    then have "(2::rat) powi 1023 < of_int a / of_int d" by simp
    with hi have "(2::rat) powi 1023 < 2 powi (e + 1)" by simp
    then have e1: "1023 < e + 1" by (rule powi_less_exp)
    then have u: "u = e - 52" by (simp add: u_def)
    have nu: "nat (- u) = 0" using e1 by (simp add: u)
    have "bitlen m + u > 1024"
    proof (cases "e = 1023")
      case True
      then have u971: "u = 971" by (simp add: u)
      have mm: "m = div_half_even a (d * P)" by (simp add: m_def u971 P_def)
      have "(2 * K - 1) * (d * P) = (2 * float_limit) * d" unfolding twoT(1) by (simp only: mult_ac)
      also have "\<dots> \<le> 2 * a" using ge by simp
      finally have "(2 * K - 1) * (d * P) \<le> 2 * a" .
      moreover have "even K" by (simp add: K_def)
      ultimately have "K \<le> m" using div_half_even_ge_half[of "d * P" K a] d P0 by (simp add: mm)
      then have "2 ^ 53 \<le> m" by (simp add: K_def)
      from bitlen_ge_pow[OF this] show ?thesis by (simp add: u971)
    next
      case False
      with e1 have e2: "1024 \<le> e" by simp
      have "(of_int (2 ^ 52) :: rat) * 2 powi u = 2 powi 52 * 2 powi u" by simp
      also have "\<dots> = 2 powi (52 + u)" by (rule power_int_add[symmetric]) simp
      also have "\<dots> = 2 powi e" by (simp add: u)
      finally have "(of_int (2 ^ 52) :: rat) * 2 powi u \<le> of_int a / of_int d" using lo by simp
      from scaled_ge[OF d this] have "2 ^ 52 * (d * 2 ^ nat u) \<le> a * 2 ^ nat (- u)" .
      from div_half_even_ge[OF d' this] have "2 ^ 52 \<le> m" by (simp add: m_def)
      from bitlen_ge_pow[OF this] e2 show ?thesis by (simp add: u)
    qed
    with iff False show ?thesis by (simp add: a_def)
  qed
qed


lemma round_ratio_uminus:
  "round_ratio (- n) d = (case round_ratio n d of Fin v \<Rightarrow> Fin (- v) | PInf \<Rightarrow> NInf
                            | NInf \<Rightarrow> PInf | NaN \<Rightarrow> NaN)"
  by (simp add: round_ratio_def Let_def)

lemma float_exact_uminus: "float_exact (- n) = float_exact n"
  by (auto simp: float_exact_iff round_ratio_uminus split: pyfloat.splits)

lemma float_exact_abs: "float_exact \<bar>n\<bar> = float_exact n"
  by (simp add: abs_if float_exact_uminus)

lemma powi_pos_nat: "0 \<le> u \<Longrightarrow> (2::rat) powi u = of_int (2 ^ nat u)"
  by (simp add: power_int_def)

lemma round_ratio_int_exact:
  assumes M: "0 < M" and Mb: "bitlen M \<le> 53" and fin: "bitlen M + int j \<le> 1024"
  shows "float_exact (M * 2 ^ j)"
proof -
  define a where "a = M * 2 ^ j"
  have a: "0 < a" using M by (simp add: a_def)
  have bla: "bitlen a = bitlen M + int j" unfolding a_def by (rule bitlen_pow2[OF M])
  from M have lM: "1 \<le> bitlen M" by (simp add: bitlen_alt_def)
  define u where "u = bitlen M + int j - 53"
  have ue: "max (binade \<bar>a\<bar> 1 - 52) (- 1074) = u"
    using a lM by (simp add: binade_int[OF a] bla u_def)
  define m where "m = div_half_even (\<bar>a\<bar> * 2 ^ nat (- u)) (1 * 2 ^ nat u)"
  have core: "bitlen m + u \<le> 1024 \<and> (of_int m :: rat) * 2 powi u = of_int a"
  proof (cases "u \<le> 0")
    case True
    then have un: "nat u = 0" by simp
    have mx: "m = a * 2 ^ nat (- u)" using a by (simp add: m_def un div_half_even_one)
    have "bitlen m = bitlen a + int (nat (- u))" unfolding mx by (rule bitlen_pow2[OF a])
    then have b: "bitlen m + u = bitlen a" using True by simp
    have one: "(of_int (2 ^ nat (- u)) :: rat) * 2 powi u = 1"
    proof -
      have "(of_int (2 ^ nat (- u)) :: rat) = 2 powi (- u)" using True by (simp add: power_int_def)
      moreover have "(2::rat) powi (- u) * 2 powi u = 2 powi (- u + u)"
        by (rule power_int_add[symmetric]) simp
      ultimately show ?thesis by simp
    qed
    have "(of_int m :: rat) * 2 powi u = of_int a * (of_int (2 ^ nat (- u)) * 2 powi u)"
      unfolding mx by (simp only: of_int_mult mult.assoc)
    with one have "(of_int m :: rat) * 2 powi u = of_int a" by simp
    with b bla fin show ?thesis by simp
  next
    case False
    then have up: "0 < u" and nn: "nat (- u) = 0" by simp_all
    from Mb have uj: "nat u \<le> j" by (simp add: u_def)
    have sp: "(2::int) ^ j = 2 ^ (j - nat u) * 2 ^ nat u"
      using uj by (simp add: power_add[symmetric])
    have ax: "a = (M * 2 ^ (j - nat u)) * (1 * 2 ^ nat u)"
      unfolding a_def by (subst sp) (simp only: mult.assoc mult_1)
    have "m = div_half_even ((M * 2 ^ (j - nat u)) * (1 * 2 ^ nat u)) (1 * 2 ^ nat u)"
      using a ax by (simp add: m_def nn)
    also have "\<dots> = M * 2 ^ (j - nat u)" by (rule div_half_even_mult) simp
    finally have mx: "m = M * 2 ^ (j - nat u)" .
    have "bitlen m = bitlen M + int (j - nat u)" unfolding mx by (rule bitlen_pow2[OF M])
    with uj up have b: "bitlen m + u = bitlen M + int j" by simp
    have "(of_int m :: rat) * 2 powi u = of_int (M * 2 ^ (j - nat u)) * of_int (2 ^ nat u)"
      using up by (simp only: mx powi_pos_nat[of u, OF less_imp_le])
    also have "\<dots> = of_int ((M * 2 ^ (j - nat u)) * (1 * 2 ^ nat u))" by simp
    also have "\<dots> = of_int a" by (simp only: ax[symmetric])
    finally have "(of_int m :: rat) * 2 powi u = of_int a" .
    with b fin show ?thesis by simp
  qed
  have an: "a \<noteq> 0" using a by simp
  from core have nov: "\<not> bitlen m + u > 1024" by simp
  have "round_ratio a 1 = Fin (of_int a)"
    unfolding round_ratio_unfold[OF an] ue m_def[symmetric] using nov core a by simp
  then show ?thesis by (simp add: float_exact_iff a_def)
qed

text \<open>The integer part of a double, and the nearest int, are ints that a double holds.\<close>

lemma double_abs_cases:
  assumes d: "0 < d" and r: "round_ratio n d = Fin v"
  shows "\<bar>v\<bar> \<le> 2 ^ 52 \<or> (\<exists>A. \<bar>v\<bar> = of_int A \<and> 0 \<le> A \<and> float_exact A)"
proof -
  from round_ratio_form[OF d r] obtain m u where f: "\<bar>v\<bar> = of_int m * 2 powi u" "0 \<le> m"
    "m \<le> 2 ^ 53" "- 1074 \<le> u" "bitlen m + u \<le> 1024" by blast
  show ?thesis
  proof (cases "u < 0")
    case True
    then have "(2::rat) powi u \<le> 2 powi (- 1)" by (intro power_int_increasing) simp_all
    then have p: "(2::rat) powi u \<le> 1 / 2" by simp
    have "(of_int m :: rat) \<le> of_int (2 ^ 53)" using f(3) by (simp only: of_int_le_iff)
    then have m: "(of_int m :: rat) \<le> 2 ^ 53" by simp
    have "(of_int m :: rat) * 2 powi u \<le> 2 ^ 53 * (1 / 2)"
      using m p f(2) by (intro mult_mono) simp_all
    with f(1) show ?thesis by simp
  next
    case False
    then have u0: "0 \<le> u" by simp
    have v: "\<bar>v\<bar> = of_int (m * 2 ^ nat u)" using f(1) by (simp add: powi_pos_nat[OF u0])
    have "float_exact (m * 2 ^ nat u)"
    proof (cases "m = 0")
      case True
      then show ?thesis by (simp add: float_exact_small)
    next
      case mz: False
      with f(2) have mp: "0 < m" by simp
      show ?thesis
      proof (cases "m = 2 ^ 53")
        case True
        define h :: int where "h = 2 ^ 52"
        have hp: "0 < h" by (simp add: h_def)
        have bh: "bitlen h = 53"
          unfolding h_def using bitlen_pow2[of 1 52] by (simp add: bitlen_alt_def)
        have mh: "m = h * 2 ^ 1" by (simp add: True h_def)
        have "bitlen m = bitlen h + int 1" unfolding mh by (rule bitlen_pow2[OF hp])
        with bh f(5) u0 have fin': "bitlen h + int (nat u + 1) \<le> 1024" by simp
        from bh have bh': "bitlen h \<le> 53" by simp
        have fe: "float_exact (h * 2 ^ (nat u + 1))" by (rule round_ratio_int_exact[OF hp bh' fin'])
        have eq: "m * 2 ^ nat u = h * 2 ^ (nat u + 1)" by (simp add: mh)
        show ?thesis unfolding eq by (rule fe)
      next
        case False
        with f(3) have "m < 2 ^ 53" by simp
        from bitlen_lt_pow[OF f(2) this] have "bitlen m \<le> 53" by simp
        with mp f(5) u0 show ?thesis by (intro round_ratio_int_exact) simp_all
      qed
    qed
    with v f(2) show ?thesis by (intro disjI2 exI[of _ "m * 2 ^ nat u"]) simp
  qed
qed

lemma int_of_float_exact:
  assumes d: "0 < d" and r: "round_ratio n d = Fin v" and x: "py_int_of_float (Fin v) = Inr x"
  shows "float_exact x"
proof -
  from x have xv: "x = (if v \<ge> 0 then \<lfloor>v\<rfloor> else \<lceil>v\<rceil>)" by simp
  from double_abs_cases[OF d r] show ?thesis
  proof
    assume s: "\<bar>v\<bar> \<le> 2 ^ 52"
    define B :: int where "B = 2 ^ 52"
    from s have lo: "of_int (- B) \<le> v" and hi: "v \<le> of_int B"
      by (simp_all add: abs_le_iff B_def)
    have "\<bar>x\<bar> \<le> B"
    proof (cases "v \<ge> 0")
      case True
      then have "0 \<le> \<lfloor>v\<rfloor>" by simp
      moreover from floor_mono[OF hi] have "\<lfloor>v\<rfloor> \<le> B" by (simp only: floor_of_int)
      ultimately show ?thesis using xv True by simp
    next
      case False
      then have "\<lceil>v\<rceil> \<le> 0" by (simp add: ceiling_le_zero)
      moreover from ceiling_mono[OF lo] have "- B \<le> \<lceil>v\<rceil>" by (simp only: ceiling_of_int)
      ultimately show ?thesis using xv False by simp
    qed
    then have "\<bar>x\<bar> \<le> 2 ^ 53" by (simp add: B_def)
    then show ?thesis by (rule float_exact_small)
  next
    assume "\<exists>A. \<bar>v\<bar> = of_int A \<and> 0 \<le> A \<and> float_exact A"
    then obtain A where A: "\<bar>v\<bar> = of_int A" "0 \<le> A" "float_exact A" by blast
    have "\<bar>x\<bar> = A"
    proof (cases "v \<ge> 0")
      case True
      with A(1) have "v = of_int A" by simp
      with xv True A(2) show ?thesis by simp
    next
      case False
      with A(1) have "v = of_int (- A)" by simp
      then have "\<lceil>v\<rceil> = - A" by (simp only: ceiling_of_int)
      with xv False A(2) show ?thesis by simp
    qed
    with A(3) float_exact_abs[of x] show ?thesis by simp
  qed
qed

lemma quotient_parts:
  obtains n d where "quotient_of q = (n, d)" "0 < d" "q = of_int n / of_int d"
proof -
  obtain n d where nd: "quotient_of q = (n, d)" by (cases "quotient_of q")
  from nd have "0 < d" by (rule quotient_of_denom_pos)
  moreover from nd have "q = of_int n / of_int d" by (rule quotient_of_div)
  ultimately show ?thesis using nd that by blast
qed

lemma round_double_finite_iff:
  "(\<exists>v. round_double q = Fin v) = (\<bar>q\<bar> < of_int float_limit)"
proof -
  obtain n d where nd: "quotient_of q = (n, d)" "0 < d" "q = of_int n / of_int d"
    by (rule quotient_parts)
  have posd: "(0::rat) < of_int d" using nd(2) by simp
  have "(\<bar>q\<bar> < of_int float_limit) = ((of_int \<bar>n\<bar> :: rat) < of_int (float_limit * d))"
    using posd by (simp add: nd(3) abs_divide pos_divide_less_eq)
  also have "\<dots> = (\<bar>n\<bar> < float_limit * d)" by (simp only: of_int_less_iff)
  finally show ?thesis using round_ratio_finite_iff[OF nd(2), of n] by (simp add: round_double_def nd(1))
qed

lemma float_of_int_error: "py_float_of_int n = Inl e \<Longrightarrow> e = OverflowError"
  by (auto simp: py_float_of_int_def split: pyfloat.splits)

lemma float_of_int_overflow_iff:
  "(py_float_of_int n = Inl OverflowError) = (float_limit \<le> \<bar>n\<bar>)"
proof -
  have "(\<exists>v. round_ratio n 1 = Fin v) = (\<bar>n\<bar> < float_limit)"
    using round_ratio_finite_iff[of 1 n] by simp
  then show ?thesis by (auto simp: py_float_of_int_def split: pyfloat.splits)
qed


lemma float_of_int_Inr: "py_float_of_int n = Inr f \<Longrightarrow> \<exists>v. f = Fin v \<and> round_ratio n 1 = Fin v"
  by (cases "round_ratio n 1") (auto simp: py_float_of_int_def)

lemma float_exact_in_range: "float_exact n \<Longrightarrow> \<bar>n\<bar> < float_limit"
proof -
  assume "float_exact n"
  then have "py_float_of_int n \<noteq> Inl OverflowError" by (simp add: float_exact_def)
  then show ?thesis by (simp add: float_of_int_overflow_iff)
qed

text \<open>Rounding never passes a double: a value bounded by a double rounds to a value with
  the same bound.\<close>

lemma round_double_le:
  assumes d: "0 < d" and r: "round_ratio n d = Fin b" and le: "\<bar>q\<bar> \<le> \<bar>b\<bar>"
  shows "\<exists>p. round_double q = Fin p \<and> \<bar>p\<bar> \<le> \<bar>b\<bar>"
proof -
  from round_ratio_form[OF d r] obtain m u where f: "\<bar>b\<bar> = of_int m * 2 powi u" "0 \<le> m"
    "m \<le> 2 ^ 53" "- 1074 \<le> u" "bitlen m + u \<le> 1024" by blast
  obtain n' d' where nd: "quotient_of q = (n', d')" "0 < d'" "q = of_int n' / of_int d'"
    by (rule quotient_parts)
  show ?thesis
  proof (cases "m = 0")
    case True
    with f(1) le have "q = 0" by simp
    then show ?thesis by (simp add: round_double_def round_ratio_def)
  next
    case False
    with f(2) have mp: "0 < m" by simp
    show ?thesis
    proof (cases "m = 2 ^ 53")
      case True
      define h :: int where "h = 2 ^ 52"
      have hp: "0 < h" by (simp add: h_def)
      have bh: "bitlen h = 53"
        unfolding h_def using bitlen_pow2[of 1 52] by (simp add: bitlen_alt_def)
      have mh: "m = h * 2 ^ 1" by (simp add: True h_def)
      have "bitlen m = bitlen h + int 1" unfolding mh by (rule bitlen_pow2[OF hp])
      with bh f(5) have fin': "bitlen h + (u + 1) \<le> 1024" by simp
      from bh have bh': "bitlen h \<le> 53" by simp
      from f(4) have k: "- 1074 \<le> u + 1" by simp
      have "(of_int m :: rat) * 2 powi u = of_int h * (2 powi 1 * 2 powi u)" by (simp add: mh)
      also have "(2::rat) powi 1 * 2 powi u = 2 powi (1 + u)" by (rule power_int_add[symmetric]) simp
      finally have bb: "\<bar>b\<bar> = of_int h * 2 powi (u + 1)" using f(1) by (simp add: add.commute)
      from le have "\<bar>of_int n' / of_int d'\<bar> \<le> (of_int h :: rat) * 2 powi (u + 1)"
        by (simp only: nd(3)[symmetric] bb[symmetric])
      from round_ratio_le_double[OF nd(2) hp bh' k fin' this] show ?thesis
        by (simp add: round_double_def nd(1) bb)
    next
      case ne: False
      with f(3) have "m < 2 ^ 53" by simp
      from bitlen_lt_pow[OF f(2) this] have bm: "bitlen m \<le> 53" by simp
      from le have "\<bar>of_int n' / of_int d'\<bar> \<le> (of_int m :: rat) * 2 powi u"
        by (simp only: nd(3)[symmetric] f(1)[symmetric])
      from round_ratio_le_double[OF nd(2) mp bm f(4) f(5) this] show ?thesis
        by (simp add: round_double_def nd(1) f(1))
    qed
  qed
qed

text \<open>\<open>round(f)\<close> of a double is an int that a double holds.\<close>

lemma round_of_double_exact:
  assumes d: "0 < d" and r: "round_ratio n d = Fin v" and x: "py_round (Fin v) = Inr x"
  shows "float_exact x"
proof -
  obtain n' d' where nd: "quotient_of v = (n', d')" "0 < d'" "v = of_int n' / of_int d'"
    by (rule quotient_parts)
  from x have xv: "x = div_half_even n' d'" by (simp add: nd(1))
  have posd: "(0::rat) < of_int d'" using nd(2) by simp
  from double_abs_cases[OF d r] show ?thesis
  proof
    assume s: "\<bar>v\<bar> \<le> 2 ^ 52"
    define B :: int where "B = 2 ^ 52"
    from s have "\<bar>of_int n' :: rat\<bar> \<le> of_int B * of_int d'"
      using posd by (simp add: nd(3) abs_divide pos_divide_le_eq B_def)
    then have "(of_int \<bar>n'\<bar> :: rat) \<le> of_int (B * d')" by simp
    then have "\<bar>n'\<bar> \<le> B * d'" by (simp only: of_int_le_iff)
    then have up: "n' \<le> B * d'" and lo: "(- B) * d' \<le> n'" by (simp_all add: abs_le_iff)
    from div_half_even_le[OF nd(2) up] div_half_even_ge[OF nd(2) lo] xv
    have "\<bar>x\<bar> \<le> B" by (simp add: abs_le_iff)
    then have "\<bar>x\<bar> \<le> 2 ^ 53" by (simp add: B_def)
    then show ?thesis by (rule float_exact_small)
  next
    assume "\<exists>A. \<bar>v\<bar> = of_int A \<and> 0 \<le> A \<and> float_exact A"
    then obtain A where A: "\<bar>v\<bar> = of_int A" "0 \<le> A" "float_exact A" by blast
    have "\<exists>z. v = of_int z \<and> \<bar>z\<bar> = A"
    proof (cases "v \<ge> 0")
      case True
      with A(1,2) show ?thesis by (intro exI[of _ A]) simp
    next
      case False
      with A(1,2) show ?thesis by (intro exI[of _ "- A"]) simp
    qed
    then obtain z where z: "v = of_int z" "\<bar>z\<bar> = A" by blast
    from z(1) nd(1) have "n' = z \<and> d' = 1" by simp
    with xv have "x = z" by (simp add: div_half_even_one)
    with z(2) A(3) float_exact_abs[of x] show ?thesis by simp
  qed
qed

lemma double_int_exact:
  "is_double f \<Longrightarrow> py_int_of_float f = Inr x \<Longrightarrow> float_exact x"
proof -
  assume a: "is_double f" "py_int_of_float f = Inr x"
  then obtain q where q: "f = Fin q" by (cases f) simp_all
  obtain n d where nd: "quotient_of q = (n, d)" "0 < d" "q = of_int n / of_int d"
    by (rule quotient_parts)
  from a(1) have "round_ratio n d = Fin q" by (simp add: is_double_def q round_double_def nd(1))
  from int_of_float_exact[OF nd(2) this] a(2) show ?thesis by (simp add: q)
qed

lemma double_round_exact:
  "is_double f \<Longrightarrow> py_round f = Inr x \<Longrightarrow> float_exact x"
proof -
  assume a: "is_double f" "py_round f = Inr x"
  then obtain q where q: "f = Fin q" by (cases f) simp_all
  obtain n d where nd: "quotient_of q = (n, d)" "0 < d" "q = of_int n / of_int d"
    by (rule quotient_parts)
  from a(1) have "round_ratio n d = Fin q" by (simp add: is_double_def q round_double_def nd(1))
  from round_of_double_exact[OF nd(2) this] a(2) show ?thesis by (simp only: q)
qed

text \<open>What \<open>int(float(s))\<close> returns for a string, and \<open>int(float(v))\<close> for a value of a CSV
  reader, is an int that a double holds.\<close>

lemma float_of_lit_double: "float_of_lit l = Fin v \<Longrightarrow> \<exists>n d. 0 < d \<and> round_ratio n d = Fin v"
proof (cases l)
  case (LitNum neg m e)
  assume "float_of_lit l = Fin v"
  with LitNum show ?thesis
  proof (cases "e \<ge> 0")
    case True
    assume "float_of_lit l = Fin v"
    with LitNum True have "(0::int) < 1 \<and> round_ratio ((if neg then - m else m) * 10 ^ nat e) 1 = Fin v"
      by simp
    then show ?thesis by blast
  next
    case False
    assume "float_of_lit l = Fin v"
    with LitNum False have "(0::int) < 10 ^ nat (- e)
        \<and> round_ratio (if neg then - m else m) (10 ^ nat (- e)) = Fin v"
      by simp
    then show ?thesis by blast
  qed
qed (simp_all split: if_splits)

lemma int_float_str_exact: "int_float_str s = Inr x \<Longrightarrow> float_exact x"
proof -
  assume a: "int_float_str s = Inr x"
  then obtain l where l: "scan_float s = Some l" and i: "py_int_of_float (float_of_lit l) = Inr x"
    by (auto simp: int_float_str_def py_float_of_str_def split: option.splits sum.splits)
  from i obtain v where v: "float_of_lit l = Fin v" by (cases "float_of_lit l") simp_all
  from float_of_lit_double[OF v] obtain n d where "0 < d" "round_ratio n d = Fin v" by blast
  from int_of_float_exact[OF this] i v show ?thesis by simp
qed

lemma int_float_exact: "csv_double v \<Longrightarrow> int_float v = Inr x \<Longrightarrow> float_exact x"
proof (cases v)
  case (PStr s)
  assume "int_float v = Inr x"
  with PStr have "int_float_str s = Inr x" by (simp add: int_float_def int_float_str_def)
  then show ?thesis by (rule int_float_str_exact)
next
  case (PInt n)
  assume a: "int_float v = Inr x"
  with PInt obtain f where f: "py_float_of_int n = Inr f" "py_int_of_float f = Inr x"
    by (auto simp: int_float_def split: sum.splits)
  from float_of_int_Inr[OF f(1)] obtain w where w: "f = Fin w" "round_ratio n 1 = Fin w" by blast
  from int_of_float_exact[OF _ w(2)] f(2) w(1) show ?thesis by simp
next
  case (PFloat f)
  assume "csv_double v" "int_float v = Inr x"
  with PFloat show ?thesis by (auto simp: int_float_def intro: double_int_exact)
next
  case PNone
  assume "int_float v = Inr x"
  with PNone show ?thesis by (simp add: int_float_def)
qed

section \<open>Committing and removing elements\<close>

lemma py_in_iff: "py_in h el xs \<longleftrightarrow> (\<exists>x\<in>set xs. elem_eq h x el)"
  by (simp add: py_in_def list_ex_iff)

text \<open>The document that a commit leaves, whatever the redraw does.\<close>

lemma commit_polyline_state:
  "snd (commit_polyline s) =
     (if length (temp_points s) \<ge> 2 then
        s\<lparr>store := store s @ [\<lparr>kind = ''polyline'', points = temp_points s,
                                 color = cc s, radius = 0\<rparr>],
          elements := elements s @ [length (store s)],
          undo_manager :=
            \<lparr>undo_list = undo_list (undo_manager s) @ [(''add'', length (store s))],
             redo_list = []\<rparr>,
          temp_points := []\<rparr>
      else s)"
  by (simp add: commit_polyline_def alloc_def push_add_def Let_def split: option.splits)

lemma commit_circle_state:
  "snd (commit_circle_from_center s cen r) =
     s\<lparr>store := store s @ [\<lparr>kind = ''circle'', points = [cen], color = cc s, radius = r\<rparr>],
       elements := elements s @ [length (store s)],
       undo_manager :=
         \<lparr>undo_list = undo_list (undo_manager s) @ [(''add'', length (store s))],
          redo_list = []\<rparr>,
       circle_center := None\<rparr>"
  by (simp add: commit_circle_from_center_def alloc_def push_add_def Let_def
      split: option.splits)








text \<open>The list that \<open>list.remove\<close> leaves: the first item that compares equal is taken
  out.\<close>

lemma py_remove_first:
  "py_in h el xs \<Longrightarrow>
   \<exists>i<length xs. elem_eq h (xs ! i) el \<and> (\<forall>j<i. \<not> elem_eq h (xs ! j) el)
        \<and> py_remove h el xs = take i xs @ drop (Suc i) xs"
proof (induction xs)
  case Nil
  then show ?case by (simp add: py_in_def)
next
  case (Cons x xs)
  show ?case
  proof (cases "elem_eq h x el")
    case True
    then have "elem_eq h ((x # xs) ! 0) el \<and> (\<forall>j<0. \<not> elem_eq h ((x # xs) ! j) el)
        \<and> py_remove h el (x # xs) = take 0 (x # xs) @ drop (Suc 0) (x # xs)" by simp
    then show ?thesis by (intro exI[of _ 0]) simp
  next
    case False
    with Cons.prems have "py_in h el xs" by (simp add: py_in_def)
    from Cons.IH[OF this] obtain i where i: "i < length xs" "elem_eq h (xs ! i) el"
      "\<forall>j<i. \<not> elem_eq h (xs ! j) el" "py_remove h el xs = take i xs @ drop (Suc i) xs"
      by blast
    have "\<forall>j<Suc i. \<not> elem_eq h ((x # xs) ! j) el"
    proof (intro allI impI)
      fix j assume "j < Suc i"
      then show "\<not> elem_eq h ((x # xs) ! j) el" using False i(3) by (cases j) simp_all
    qed
    with i False show ?thesis by (intro exI[of _ "Suc i"]) simp
  qed
qed

text \<open>
  Claim C9, as stated: removing an element that is not in the list by identity changes
  nothing. It fails: the membership test is \<open>el in self.elements\<close>, which also accepts
  an element with equal fields. In \<open>twin_scene\<close> remove object 0; object 0 is then no
  longer in the list, yet removing it once more deletes its twin, object 1, and pushes
  a remove entry.
\<close>

theorem remove_absent_by_identity_counterexample:
  "0 \<notin> set (elements (remove_element twin_scene 0))
   \<and> elements (remove_element twin_scene 0) = [1]
   \<and> elements (remove_element (remove_element twin_scene 0) 0) = []
   \<and> undo_list (undo_manager (remove_element (remove_element twin_scene 0) 0))
       = undo_list (undo_manager (remove_element twin_scene 0)) @ [(''remove'', 0)]"
  by (simp add: twin_scene_def remove_element_def commit_polyline_state push_remove_def
      append_temp_point_def new_SceneTab_def new_UndoManager_def py_in_def
      elem_eq_def Let_def)

text \<open>
  Claim C9, amended. When no element of the list is the given object or has the same
  fields as it, \<open>remove_element\<close> leaves the whole document unchanged: element list,
  undo stack, redo stack and everything else. When some element of the list is the
  given object or has the same fields, the first such element of the list is taken out
  (the others keep their order), a remove entry for the given object is pushed on the
  undo stack and the redo stack is emptied; nothing else changes.
\<close>

theorem remove_element_by_value:
  "((\<forall>x\<in>set (elements s). x \<noteq> el \<and> store s ! x \<noteq> store s ! el) \<longrightarrow>
      remove_element s el = s)
   \<and> ((\<exists>x\<in>set (elements s). x = el \<or> store s ! x = store s ! el) \<longrightarrow>
        (\<exists>i<length (elements s).
            (elements s ! i = el \<or> store s ! (elements s ! i) = store s ! el)
          \<and> (\<forall>j<i. elements s ! j \<noteq> el \<and> store s ! (elements s ! j) \<noteq> store s ! el)
          \<and> remove_element s el =
              s\<lparr>elements := take i (elements s) @ drop (Suc i) (elements s),
                undo_manager :=
                  \<lparr>undo_list = undo_list (undo_manager s) @ [(''remove'', el)],
                   redo_list = []\<rparr>\<rparr>))"
proof (intro conjI impI)
  assume "\<forall>x\<in>set (elements s). x \<noteq> el \<and> store s ! x \<noteq> store s ! el"
  then have "\<not> py_in (store s) el (elements s)" by (auto simp: py_in_iff elem_eq_def)
  then show "remove_element s el = s" by (simp add: remove_element_def)
next
  assume "\<exists>x\<in>set (elements s). x = el \<or> store s ! x = store s ! el"
  then have pin: "py_in (store s) el (elements s)" by (auto simp: py_in_iff elem_eq_def)
  from py_remove_first[OF pin] obtain i where i: "i < length (elements s)"
    "elem_eq (store s) (elements s ! i) el"
    "\<forall>j<i. \<not> elem_eq (store s) (elements s ! j) el"
    "py_remove (store s) el (elements s) = take i (elements s) @ drop (Suc i) (elements s)"
    by blast
  from pin i(4) have "remove_element s el =
      s\<lparr>elements := take i (elements s) @ drop (Suc i) (elements s),
        undo_manager :=
          \<lparr>undo_list = undo_list (undo_manager s) @ [(''remove'', el)], redo_list = []\<rparr>\<rparr>"
    by (simp add: remove_element_def push_remove_def Let_def)
  with i(1,2,3) show "\<exists>i<length (elements s).
            (elements s ! i = el \<or> store s ! (elements s ! i) = store s ! el)
          \<and> (\<forall>j<i. elements s ! j \<noteq> el \<and> store s ! (elements s ! j) \<noteq> store s ! el)
          \<and> remove_element s el =
              s\<lparr>elements := take i (elements s) @ drop (Suc i) (elements s),
                undo_manager :=
                  \<lparr>undo_list = undo_list (undo_manager s) @ [(''remove'', el)],
                   redo_list = []\<rparr>\<rparr>"
    by (auto simp: elem_eq_def)
qed

theorem remove_element_by_value_witness:
  "elements undone_scene = [0] \<and> length (store undone_scene) = 2
   \<and> store undone_scene ! 0 \<noteq> store undone_scene ! 1
   \<and> remove_element undone_scene 1 = undone_scene
   \<and> elements twin_scene = [0, 1] \<and> store twin_scene ! 0 = store twin_scene ! 1
   \<and> elements (remove_element twin_scene 1) = [1]
   \<and> undo_manager (remove_element twin_scene 1)
       = \<lparr>undo_list = [(''add'', 0), (''add'', 1), (''remove'', 1)], redo_list = []\<rparr>"
proof -
  have u: "elements undone_scene = [0]"
    "store undone_scene =
       [\<lparr>kind = ''polyline'', points = [(0, 0), (10, 10)], color = (255, 0, 0), radius = 0\<rparr>,
        \<lparr>kind = ''circle'', points = [(5, 5)], color = (255, 0, 0), radius = 3\<rparr>]"
    by (simp_all add: undone_scene_def undo_def um_undo_def commit_circle_state
        commit_polyline_state append_temp_point_def new_SceneTab_def new_UndoManager_def
        py_in_def elem_eq_def Let_def)
  have t: "elements twin_scene = [0, 1]"
    "store twin_scene =
       [\<lparr>kind = ''polyline'', points = [(0, 0), (10, 10)], color = (255, 0, 0), radius = 0\<rparr>,
        \<lparr>kind = ''polyline'', points = [(0, 0), (10, 10)], color = (255, 0, 0), radius = 0\<rparr>]"
    "undo_manager twin_scene = \<lparr>undo_list = [(''add'', 0), (''add'', 1)], redo_list = []\<rparr>"
    by (simp_all add: twin_scene_def commit_polyline_state append_temp_point_def
        new_SceneTab_def new_UndoManager_def Let_def)
  from remove_element_by_value[of undone_scene 1] u
  have a: "remove_element undone_scene 1 = undone_scene" by simp
  have ex: "\<exists>x\<in>set (elements twin_scene). x = 1 \<or> store twin_scene ! x = store twin_scene ! 1"
    by (simp add: t)
  with remove_element_by_value[of twin_scene 1]
  obtain i where i: "i < length (elements twin_scene)"
    "\<forall>j<i. elements twin_scene ! j \<noteq> 1
           \<and> store twin_scene ! (elements twin_scene ! j) \<noteq> store twin_scene ! 1"
    "remove_element twin_scene 1 =
       twin_scene\<lparr>elements := take i (elements twin_scene) @ drop (Suc i) (elements twin_scene),
         undo_manager := \<lparr>undo_list = undo_list (undo_manager twin_scene) @ [(''remove'', 1)],
                           redo_list = []\<rparr>\<rparr>"
    by blast
  have i0: "i = 0"
  proof (rule ccontr)
    assume "i \<noteq> 0"
    then have "0 < i" by simp
    with i(2) have "store twin_scene ! (elements twin_scene ! 0) \<noteq> store twin_scene ! 1"
      by blast
    then show False by (simp add: t)
  qed
  have b: "elements (remove_element twin_scene 1) = [1]"
    "undo_manager (remove_element twin_scene 1)
       = \<lparr>undo_list = [(''add'', 0), (''add'', 1), (''remove'', 1)], redo_list = []\<rparr>"
    unfolding i(3) i0 by (simp_all add: t)
  from a b u t show ?thesis by simp
qed

section \<open>Undo and redo\<close>

lemma elem_eq_data: "elem_eq h x el \<longleftrightarrow> h ! x = h ! el"
  by (auto simp: elem_eq_def)

lemma py_in_data: "py_in h el xs \<longleftrightarrow> h ! el \<in># datas h xs"
proof -
  have "py_in h el xs \<longleftrightarrow> h ! el \<in> (!) h ` set xs"
    by (auto simp: py_in_iff elem_eq_data intro: rev_image_eqI)
  then show ?thesis by (simp add: datas_def)
qed

lemma datas_py_remove:
  "py_in h el xs \<Longrightarrow> datas h (py_remove h el xs) = datas h xs - {# h ! el #}"
  by (induction xs) (auto simp: py_in_iff elem_eq_data datas_def)

lemma datas_append [simp]: "datas h (xs @ [x]) = datas h xs + {# h ! x #}"
  by (simp add: datas_def)

lemma datas_empty [simp]: "datas h xs = {#} \<longleftrightarrow> xs = []"
  by (simp add: datas_def)

lemma datas_Nil [simp]: "datas h [] = {#}"
  by (simp add: datas_def)

lemma replay_snoc [simp]: "replay h (ops @ [e]) = apply_entry h (replay h ops) e"
  by (simp add: replay_def)

lemma replay_Nil [simp]: "replay h [] = []"
  by (simp add: replay_def)

lemma hist_ok_snoc [simp]:
  "hist_ok h (ops @ [e]) \<longleftrightarrow> hist_ok h ops \<and>
     (fst e = ''add'' \<or> (fst e = ''remove'' \<and> py_in h (snd e) (replay h ops)))"
  by (simp add: hist_ok_def)

lemma hist_ok_Nil [simp]: "hist_ok h []" by (simp add: hist_ok_def)

lemma undo_step:
  assumes "undo_list (undo_manager s) = ops @ [e]"
    and "hist_ok (store s) (ops @ [e])"
    and "datas (store s) (elements s) = datas (store s) (replay (store s) (ops @ [e]))"
  shows "undo_list (undo_manager (undo s)) = ops
       \<and> redo_list (undo_manager (undo s)) = redo_list (undo_manager s) @ [e]
       \<and> store (undo s) = store s
       \<and> datas (store s) (elements (undo s)) = datas (store s) (replay (store s) ops)"
proof -
  obtain k el where e: "e = (k, el)" by (cases e)
  from assms(2) have k: "k = ''add'' \<or> (k = ''remove'' \<and> py_in (store s) el (replay (store s) ops))"
    by (simp add: e)
  show ?thesis
  proof (cases "k = ''add''")
    case True
    with assms(3) have d: "datas (store s) (elements s) = datas (store s) (replay (store s) ops) + {# store s ! el #}"
      by (simp add: e apply_entry_def)
    then have "py_in (store s) el (elements s)" by (simp add: py_in_data)
    with d True assms(1) show ?thesis
      by (simp add: undo_def um_undo_def e Let_def datas_py_remove)
  next
    case False
    with k have k': "k = ''remove''" and pin: "py_in (store s) el (replay (store s) ops)" by auto
    from assms(3) pin k' have "datas (store s) (elements s) = datas (store s) (replay (store s) ops) - {# store s ! el #}"
      by (simp add: e apply_entry_def datas_py_remove)
    moreover from pin have "store s ! el \<in># datas (store s) (replay (store s) ops)" by (simp add: py_in_data)
    ultimately show ?thesis using k' assms(1)
      by (simp add: undo_def um_undo_def e Let_def)
  qed
qed

lemma undo_all:
  "undo_list (undo_manager s) = ops \<Longrightarrow> hist_ok (store s) ops \<Longrightarrow>
   datas (store s) (elements s) = datas (store s) (replay (store s) ops) \<Longrightarrow>
   undo_list (undo_manager ((undo ^^ length ops) s)) = []
   \<and> redo_list (undo_manager ((undo ^^ length ops) s)) = redo_list (undo_manager s) @ rev ops
   \<and> store ((undo ^^ length ops) s) = store s
   \<and> elements ((undo ^^ length ops) s) = []"
proof (induction ops arbitrary: s rule: rev_induct)
  case Nil
  then show ?case by simp
next
  case (snoc e ops)
  from undo_step[OF snoc.prems] have st:
    "undo_list (undo_manager (undo s)) = ops"
    "redo_list (undo_manager (undo s)) = redo_list (undo_manager s) @ [e]"
    "store (undo s) = store s"
    "datas (store s) (elements (undo s)) = datas (store s) (replay (store s) ops)" by auto
  from snoc.prems(2) have ok: "hist_ok (store (undo s)) ops" by (simp add: st)
  from snoc.IH[of "undo s", OF st(1) ok] st
  show ?case by (simp add: funpow_swap1)
qed

lemma redo_step:
  assumes "redo_list (undo_manager s) = r @ [e]" "fst e = ''add'' \<or> fst e = ''remove''"
  shows "redo_list (undo_manager (redo s)) = r
       \<and> undo_list (undo_manager (redo s)) = undo_list (undo_manager s) @ [e]
       \<and> store (redo s) = store s
       \<and> elements (redo s) = apply_entry (store s) (elements s) e"
  using assms by (cases e) (auto simp: redo_def um_redo_def Let_def apply_entry_def)

lemma redo_all:
  "redo_list (undo_manager s) = r @ rev ops \<Longrightarrow> \<forall>e\<in>set ops. fst e = ''add'' \<or> fst e = ''remove'' \<Longrightarrow>
   redo_list (undo_manager ((redo ^^ length ops) s)) = r
   \<and> undo_list (undo_manager ((redo ^^ length ops) s)) = undo_list (undo_manager s) @ ops
   \<and> store ((redo ^^ length ops) s) = store s
   \<and> elements ((redo ^^ length ops) s) = foldl (apply_entry (store s)) (elements s) ops"
proof (induction ops arbitrary: s)
  case Nil
  then show ?case by simp
next
  case (Cons e ops)
  from Cons.prems have a: "redo_list (undo_manager s) = (r @ rev ops) @ [e]" and k: "fst e = ''add'' \<or> fst e = ''remove''"
    by auto
  note st = redo_step[OF a k]
  from st have b: "redo_list (undo_manager (redo s)) = r @ rev ops" by simp
  from Cons.prems have c: "\<forall>e\<in>set ops. fst e = ''add'' \<or> fst e = ''remove''" by simp
  from Cons.IH[OF b c] st show ?case by (simp add: funpow_swap1)
qed

lemma hist_ok_kinds: "hist_ok h ops \<Longrightarrow> \<forall>e\<in>set ops. fst e = ''add'' \<or> fst e = ''remove''"
  by (induction ops rule: rev_induct) auto

lemma py_in_ext:
  "set els \<subseteq> {..<length h} \<Longrightarrow> el < length h \<Longrightarrow> py_in (h @ [x]) el els = py_in h el els"
  by (auto simp: py_in_iff elem_eq_def nth_append)

lemma py_remove_ext:
  "set els \<subseteq> {..<length h} \<Longrightarrow> el < length h \<Longrightarrow> py_remove (h @ [x]) el els = py_remove h el els"
  by (induction els) (auto simp: elem_eq_def nth_append)

lemma set_py_remove: "set (py_remove h el els) \<subseteq> set els"
  by (induction els) auto

lemma apply_entry_bound:
  "set els \<subseteq> {..<length h} \<Longrightarrow> snd e < length h \<Longrightarrow> set (apply_entry h els e) \<subseteq> {..<length h}"
  using set_py_remove[of h "snd e" els] by (auto simp: apply_entry_def)

lemma apply_entry_ext:
  "set els \<subseteq> {..<length h} \<Longrightarrow> snd e < length h \<Longrightarrow> apply_entry (h @ [x]) els e = apply_entry h els e"
  by (simp add: apply_entry_def py_in_ext py_remove_ext)

lemma replay_ext:
  "\<forall>e\<in>set ops. snd e < length h \<Longrightarrow>
     replay (h @ [x]) ops = replay h ops \<and> set (replay h ops) \<subseteq> {..<length h}"
proof (induction ops rule: rev_induct)
  case Nil
  then show ?case by simp
next
  case (snoc e ops)
  then have ih: "replay (h @ [x]) ops = replay h ops" "set (replay h ops) \<subseteq> {..<length h}"
    and e: "snd e < length h" by auto
  show ?case using apply_entry_ext[OF ih(2) e] apply_entry_bound[OF ih(2) e] by (simp add: ih)
qed

lemma hist_ok_ext:
  "\<forall>e\<in>set ops. snd e < length h \<Longrightarrow> hist_ok (h @ [x]) ops = hist_ok h ops"
proof (induction ops rule: rev_induct)
  case Nil
  then show ?case by simp
next
  case (snoc e ops)
  then have ih: "hist_ok (h @ [x]) ops = hist_ok h ops" and b: "\<forall>e\<in>set ops. snd e < length h"
    and e: "snd e < length h" by auto
  from replay_ext[OF b] have r: "replay (h @ [x]) ops = replay h ops" "set (replay h ops) \<subseteq> {..<length h}"
    by auto
  show ?case by (simp add: ih r py_in_ext[OF r(2) e])
qed

lemma hist_inv_new: "hist_inv (new_SceneTab h gs cs)"
  by (simp add: hist_inv_def new_SceneTab_def new_UndoManager_def)

lemma hist_inv_alloc_add:
  assumes "hist_inv s"
  shows "hist_inv (s\<lparr>store := store s @ [x], elements := elements s @ [length (store s)],
            undo_manager := \<lparr>undo_list = undo_list (undo_manager s) @ [(''add'', length (store s))],
                              redo_list = []\<rparr>\<rparr>)"
proof -
  from assms have b: "\<forall>e\<in>set (undo_list (undo_manager s)). snd e < length (store s)"
    and ok: "hist_ok (store s) (undo_list (undo_manager s))"
    and el: "elements s = replay (store s) (undo_list (undo_manager s))"
    by (auto simp: hist_inv_def)
  from b have b': "\<forall>e\<in>set (undo_list (undo_manager s)). snd e < Suc (length (store s))"
    by auto
  show ?thesis
    using replay_ext[OF b, of x] hist_ok_ext[OF b, of x] ok el b'
    by (simp add: hist_inv_def apply_entry_def)
qed

lemma hist_inv_step:
  assumes "hist_inv s" "succeeds s c"
  shows "hist_inv (do_call s c)
       \<and> length (undo_list (undo_manager (do_call s c))) =
           length (undo_list (undo_manager s)) + (if is_edit c then 1 else 0)"
proof (cases c)
  case (AppendTemp p)
  with assms show ?thesis by (simp add: hist_inv_def append_temp_point_def)
next
  case (SetColor col)
  with assms show ?thesis by (simp add: hist_inv_def set_color_def)
next
  case CommitPolyline
  with assms(2) have "do_call s c = (s\<lparr>store := store s @ [\<lparr>kind = ''polyline'', points = temp_points s,
                                 color = cc s, radius = 0\<rparr>], elements := elements s @ [length (store s)],
            undo_manager := \<lparr>undo_list = undo_list (undo_manager s) @ [(''add'', length (store s))],
                              redo_list = []\<rparr>\<rparr>)\<lparr>temp_points := []\<rparr>"
    by (simp add: commit_polyline_state)
  with hist_inv_alloc_add[OF assms(1)] CommitPolyline show ?thesis
    by (simp add: hist_inv_def)
next
  case (CommitCircle cen r)
  then have "do_call s c = (s\<lparr>store := store s @ [\<lparr>kind = ''circle'', points = [cen],
                                 color = cc s, radius = r\<rparr>], elements := elements s @ [length (store s)],
            undo_manager := \<lparr>undo_list = undo_list (undo_manager s) @ [(''add'', length (store s))],
                              redo_list = []\<rparr>\<rparr>)\<lparr>circle_center := None\<rparr>"
    by (simp add: commit_circle_state)
  with hist_inv_alloc_add[OF assms(1)] CommitCircle show ?thesis
    by (simp add: hist_inv_def)
next
  case (RemoveElement el)
  with assms(2) have mem: "el \<in> set (elements s)" by simp
  then have pin: "py_in (store s) el (elements s)" by (auto simp: py_in_iff elem_eq_def)
  from assms(1) have b: "\<forall>e\<in>set (undo_list (undo_manager s)). snd e < length (store s)"
    and el: "elements s = replay (store s) (undo_list (undo_manager s))"
    by (auto simp: hist_inv_def)
  from replay_ext[OF b] el mem have "el < length (store s)" by auto
  with assms(1) pin RemoveElement show ?thesis
    by (simp add: hist_inv_def remove_element_def push_remove_def Let_def apply_entry_def)
qed

lemma hist_inv_run:
  "hist_inv s \<Longrightarrow> all_succeed s cs \<Longrightarrow>
     hist_inv (run s cs)
   \<and> length (undo_list (undo_manager (run s cs))) =
       length (undo_list (undo_manager s)) + edit_count cs"
proof (induction cs arbitrary: s)
  case Nil
  then show ?case by (simp add: run_def edit_count_def)
next
  case (Cons c cs)
  then have s: "succeeds s c" and r: "all_succeed (do_call s c) cs" by auto
  from hist_inv_step[OF Cons.prems(1) s] Cons.IH[OF _ r]
  show ?case by (auto simp: run_def edit_count_def)
qed

text \<open>
  Claim C2. Take any sequence of calls on a new, empty document in which every editing
  call succeeds (\<open>commit_polyline\<close> with at least two buffered points,
  \<open>commit_circle_from_center\<close>, \<open>remove_element\<close> of an element in the list), and
  let n be the number of editing calls. Then n calls of \<open>undo\<close> leave the element list
  empty, and n calls of \<open>redo\<close> after them give back the element list reached by the
  sequence (the same references, hence the same set of objects), with every object's
  fields as they were and the undo and redo stacks as they were.
\<close>

theorem undo_redo_inverse:
  assumes "all_succeed (new_SceneTab h gs cs) calls"
  shows "elements ((undo ^^ edit_count calls) (run (new_SceneTab h gs cs) calls)) = []
       \<and> store ((undo ^^ edit_count calls) (run (new_SceneTab h gs cs) calls))
           = store (run (new_SceneTab h gs cs) calls)
       \<and> elements ((redo ^^ edit_count calls) ((undo ^^ edit_count calls) (run (new_SceneTab h gs cs) calls)))
           = elements (run (new_SceneTab h gs cs) calls)
       \<and> store ((redo ^^ edit_count calls) ((undo ^^ edit_count calls) (run (new_SceneTab h gs cs) calls)))
           = store (run (new_SceneTab h gs cs) calls)
       \<and> undo_manager ((redo ^^ edit_count calls) ((undo ^^ edit_count calls) (run (new_SceneTab h gs cs) calls)))
           = undo_manager (run (new_SceneTab h gs cs) calls)"
proof -
  let ?s = "run (new_SceneTab h gs cs) calls"
  let ?ops = "undo_list (undo_manager ?s)"
  let ?u = "(undo ^^ edit_count calls) ?s"
  from hist_inv_run[OF hist_inv_new assms]
  have inv: "hist_inv ?s" and n: "length ?ops = edit_count calls"
    by (auto simp: new_SceneTab_def new_UndoManager_def)
  from inv have redo0: "redo_list (undo_manager ?s) = []" and ok: "hist_ok (store ?s) ?ops"
    and el: "elements ?s = replay (store ?s) ?ops" by (auto simp: hist_inv_def)
  from undo_all[OF refl ok] el n redo0
  have u: "undo_list (undo_manager ?u) = []" "redo_list (undo_manager ?u) = [] @ rev ?ops"
    "store ?u = store ?s" "elements ?u = []" by auto
  from redo_all[OF u(2) hist_ok_kinds[OF ok]] n u el
  have r: "redo_list (undo_manager ((redo ^^ edit_count calls) ?u)) = []"
    "undo_list (undo_manager ((redo ^^ edit_count calls) ?u)) = ?ops"
    "store ((redo ^^ edit_count calls) ?u) = store ?s"
    "elements ((redo ^^ edit_count calls) ?u) = elements ?s"
    by (auto simp: replay_def)
  from r(1,2) redo0 have "undo_manager ((redo ^^ edit_count calls) ?u) = undo_manager ?s"
    by (intro UndoManager.equality) auto
  with u r show ?thesis by simp
qed

theorem undo_redo_inverse_witness:
  "all_succeed (new_SceneTab [] 255 1) session_calls
   \<and> edit_count session_calls = 4
   \<and> elements (run (new_SceneTab [] 255 1) session_calls) = [1, 2]
   \<and> elements ((undo ^^ 4) (run (new_SceneTab [] 255 1) session_calls)) = []
   \<and> elements ((redo ^^ 4) ((undo ^^ 4) (run (new_SceneTab [] 255 1) session_calls))) = [1, 2]"
proof -
  have a: "all_succeed (new_SceneTab [] 255 1) session_calls" by code_simp
  have b: "edit_count session_calls = 4" by code_simp
  have c: "elements (run (new_SceneTab [] 255 1) session_calls) = [1, 2]" by code_simp
  from undo_redo_inverse[OF a] a b c show ?thesis by simp
qed

section \<open>Laser import: terminators and end of stream\<close>

lemma add_imported_eq:
  "add_imported e sc =
     sc\<lparr>store := store sc @ [e], elements := elements sc @ [length (store sc)],
        undo_manager := \<lparr>undo_list = undo_list (undo_manager sc) @ [(''add'', length (store sc))],
                          redo_list = []\<rparr>\<rparr>"
  by (simp add: add_imported_def alloc_def push_add_def)

lemma stop_not_color:
  "py_upper l = ''STOP'' \<Longrightarrow> l \<noteq> [] \<and> \<not> startswith (py_upper l) ''COLOR''"
  by (auto simp: startswith_def py_upper_def)

text \<open>
  Claim C4, as stated: a STOP line flushes the accumulated points as one polyline, and
  the end of the stream flushes what is left, for every input stream, also when
  coordinate lines come before any COLOR line. It fails on such streams: both flushes
  are guarded by \<open>cc is not None\<close>. Two coordinate lines and a STOP with no COLOR line
  import nothing, and so do two coordinate lines alone. (With a COLOR line first, the
  STOP line and the end of the stream each flush a polyline.)
\<close>

theorem laser_flush_without_color_counterexample:
  "elements (import_laser_format [] 255 1 (text_of_lines [''1,2'', ''3,4'', ''STOP''])) = []
   \<and> elements (import_laser_format [] 255 1 (text_of_lines [''1,2'', ''3,4''])) = []
   \<and> map ((!) (store (import_laser_format [] 255 1
                        (text_of_lines [''COLOR 2'', ''1,2'', ''3,4'', ''STOP'', ''5,6'']))))
       (elements (import_laser_format [] 255 1
                   (text_of_lines [''COLOR 2'', ''1,2'', ''3,4'', ''STOP'', ''5,6''])))
     = [\<lparr>kind = ''polyline'', points = [(1, 2), (3, 4)], color = (0, 255, 0), radius = 0\<rparr>,
        \<lparr>kind = ''polyline'', points = [(5, 6)], color = (0, 255, 0), radius = 0\<rparr>]"
  by code_simp

text \<open>
  Claim C4, amended. In any state of the parsing loop, a line that reads STOP in any
  letter case empties the accumulator and keeps the current colour; when a colour has
  been established and points are accumulated, it appends exactly one polyline with
  those points and that colour; when no colour has been established the accumulated
  points are dropped. At the end of the stream the remaining points are flushed as a
  final polyline if a colour has been established, and dropped otherwise.
\<close>

theorem laser_stop_and_end_flush:
  "(py_upper l = ''STOP'' \<longrightarrow>
      laser_line (Some col, cp, sc) l =
        (Some col, [],
         if cp = [] then sc
         else add_imported \<lparr>kind = ''polyline'', points = cp, color = col, radius = 0\<rparr> sc)
    \<and> laser_line (None, cp, sc) l = (None, [], sc))
   \<and> laser_finish (Some col, cp, sc) =
       (if cp = [] then sc
        else add_imported \<lparr>kind = ''polyline'', points = cp, color = col, radius = 0\<rparr> sc)
   \<and> laser_finish (None, cp, sc) = sc
   \<and> elements (add_imported \<lparr>kind = ''polyline'', points = cp, color = col, radius = 0\<rparr> sc)
       = elements sc @ [length (store sc)]
   \<and> store (add_imported \<lparr>kind = ''polyline'', points = cp, color = col, radius = 0\<rparr> sc)
       = store sc @ [\<lparr>kind = ''polyline'', points = cp, color = col, radius = 0\<rparr>]"
  using stop_not_color[of l]
  by (auto simp: laser_finish_def flush_poly_def add_imported_eq)

theorem laser_stop_and_end_flush_witness:
  "py_upper ''stop'' = ''STOP''
   \<and> laser_line (Some (0, 255, 0), [(1, 2)], new_SceneTab [] 255 1) ''stop'' =
       (Some (0, 255, 0), [],
        add_imported \<lparr>kind = ''polyline'', points = [(1, 2)], color = (0, 255, 0), radius = 0\<rparr>
          (new_SceneTab [] 255 1))
   \<and> laser_line (None, [(1, 2)], new_SceneTab [] 255 1) ''stop'' =
       (None, [], new_SceneTab [] 255 1)"
proof -
  have u: "py_upper ''stop'' = ''STOP''" by code_simp
  from laser_stop_and_end_flush[of "''stop''" "(0, 255, 0)" "[(1, 2)]" "new_SceneTab [] 255 1"] u
  show ?thesis by simp
qed

section \<open>CSV import: malformed records\<close>

text \<open>
  Claim C5: the CSV import never aborts on a malformed record; a non-numeric field
  counts as 0 and the remaining rows are processed. The code does not do this: the
  conversions \<open>int(float(r.get("x", 0)))\<close> are outside any \<open>try\<close>, and the default 0 only
  replaces a missing column. On a first record with \<open>x = abc\<close> the import raises
  ValueError, and the well-formed second record is never read: the new tab stays empty.
\<close>

theorem open_csv_aborts_on_bad_field:
  "open_csv [] 255 1
     [csv_record ''polyline'' ''abc'' ''0'' ''255'' ''0'' ''0'' [],
      csv_record ''polyline'' ''1'' ''1'' ''255'' ''0'' ''0'' []]
   = (Some ValueError, new_SceneTab [] 255 1)"
  by code_simp

section \<open>Laser round trip\<close>

lemma numchar_facts:
  "numchar c \<Longrightarrow> \<not> py_isspace c \<and> c \<noteq> CHR '','' \<and> c \<noteq> CHR 0x0A \<and> c \<noteq> CHR 0x0D
     \<and> py_upper_char c \<noteq> CHR ''C'' \<and> py_upper_char c \<noteq> CHR ''S''"
  by (auto simp: numchar_def is_digit_def py_isspace_def py_upper_char_def)

lemma str_int_chars:
  "str_int n \<noteq> [] \<and> (\<forall>c\<in>set (str_int n). numchar c)
     \<and> numchar (hd (str_int n)) \<and> numchar (last (str_int n))"
proof -
  have "str_int n \<noteq> [] \<and> (\<forall>c\<in>set (str_int n). numchar c)"
  proof (cases "n < 0")
    case True
    then have "0 \<le> - n" by simp
    from dec_digits_props[OF this] True show ?thesis
      by (auto simp: str_int_def numchar_def)
  next
    case False
    then have "0 \<le> n" by simp
    from dec_digits_props[OF this] False show ?thesis
      by (auto simp: str_int_def numchar_def)
  qed
  then show ?thesis by auto
qed

lemma py_strip_str_int: "py_strip (str_int n) = str_int n"
  using str_int_chars[of n] numchar_facts by (intro py_strip_id) blast

lemma split_comma1_point:
  "split_comma1 (point_line p) = [str_int (fst p), str_int (snd p)]"
proof -
  have nc: "\<forall>c\<in>set (str_int (fst p)). c \<noteq> CHR '',''"
    using str_int_chars[of "fst p"] numchar_facts by blast
  then have "takeWhile (\<lambda>c. c \<noteq> CHR '','') (str_int (fst p) @ CHR '','' # str_int (snd p))
              = str_int (fst p)"
    by (simp add: takeWhile_append2)
  moreover from nc have "dropWhile (\<lambda>c. c \<noteq> CHR '','') (str_int (fst p) @ CHR '','' # str_int (snd p))
              = CHR '','' # str_int (snd p)"
    by (simp add: dropWhile_append2)
  ultimately show ?thesis by (simp add: split_comma1_def point_line_def)
qed

lemma coord_line_point:
  assumes "exact_point p"
  shows "coord_line (point_line p) = Some p"
  using int_float_str_roundtrip[of "fst p"] int_float_str_roundtrip[of "snd p"] assms
  by (simp add: coord_line_def split_comma1_point py_strip_str_int exact_point_def)

text \<open>An int within the range of a double has at most 309 digits, so \<open>str\<close> prints it.\<close>

lemma dec_digits_length:
  "0 \<le> n \<Longrightarrow> n < 10 ^ k \<Longrightarrow> 0 < k \<Longrightarrow> length (dec_digits n) \<le> k"
proof (induction n arbitrary: k rule: dec_digits.induct)
  case (1 n)
  show ?case
  proof (cases "n < 10")
    case True
    with "1.prems" show ?thesis by (subst dec_digits.simps) simp
  next
    case False
    from "1.prems" obtain j where k: "k = Suc j" by (cases k) auto
    from False "1.prems" have j: "0 < j" by (cases j) (auto simp: k)
    from "1.prems" have "n < 10 * 10 ^ j" by (simp add: k)
    then have "n div 10 < 10 ^ j" by simp
    moreover from "1.prems" have "0 \<le> n div 10" by simp
    ultimately have "length (dec_digits (n div 10)) \<le> j" using "1.IH"[OF False] j by simp
    with False show ?thesis by (subst dec_digits.simps) (simp add: k)
  qed
qed

lemma py_str_int_in_range:
  assumes "\<bar>n\<bar> < float_limit"
  shows "py_str_int n = Inr (str_int n)"
proof -
  have "float_limit < 10 ^ 309" by (simp add: float_limit_def)
  with assms have "\<bar>n\<bar> < 10 ^ 309" by linarith
  from dec_digits_length[OF _ this] have "length (dec_digits \<bar>n\<bar>) \<le> 309" by simp
  then show ?thesis by (simp add: py_str_int_def max_str_digits_def)
qed

lemma fmt_pair_exact:
  "exact_point p \<Longrightarrow> fmt_pair (fst p) (snd p) = Inr (point_line p @ [CHR 0x0A])"
  by (simp add: fmt_pair_def point_line_def exact_point_def py_str_int_in_range
      float_exact_in_range)

lemma point_line_shape:
  "point_line p \<noteq> [] \<and> numchar (hd (point_line p)) \<and> numchar (last (point_line p))
     \<and> (\<forall>c\<in>set (point_line p). c \<noteq> CHR 0x0A \<and> c \<noteq> CHR 0x0D)"
proof -
  from str_int_chars[of "fst p"] str_int_chars[of "snd p"] numchar_facts
  show ?thesis by (auto simp: point_line_def)
qed

lemma laser_line_point:
  assumes "exact_point p"
  shows "laser_line (c0, cp, sc) (point_line p) = (c0, cp @ [p], sc)"
proof -
  from point_line_shape[of p] obtain c cs where l: "point_line p = c # cs" and c: "numchar c"
    by (cases "point_line p") auto
  from numchar_facts[OF c] have "\<not> startswith (py_upper (point_line p)) ''COLOR''"
    "py_upper (point_line p) \<noteq> ''STOP''"
    by (auto simp: l startswith_def py_upper_def)
  with l coord_line_point[OF assms] show ?thesis by simp
qed

declare laser_line.simps [simp del]

lemma laser_lines_points:
  "\<forall>p\<in>set ps. exact_point p \<Longrightarrow>
   foldl laser_line (c0, cp, sc) (map point_line ps) = (c0, cp @ ps, sc)"
  by (induction ps arbitrary: cp) (simp_all add: laser_line_point del: laser_line.simps)

lemma str_code: "str_int 1 = ''1''" "str_int 2 = ''2''" "str_int 3 = ''3''"
  by code_simp+

lemma color_line_1: "startswith (py_upper ''COLOR 1'') ''COLOR''" "color_line_code ''COLOR 1'' = 1"
  by code_simp+
lemma color_line_2: "startswith (py_upper ''COLOR 2'') ''COLOR''" "color_line_code ''COLOR 2'' = 2"
  by code_simp+
lemma color_line_3: "startswith (py_upper ''COLOR 3'') ''COLOR''" "color_line_code ''COLOR 3'' = 3"
  by code_simp+

lemma laser_line_color:
  assumes "k = color_to_code col"
  shows "laser_line (c0, [], sc) (color_line k) = (Some (code_to_color k), [], sc)"
proof -
  from assms have "k = 1 \<or> k = 2 \<or> k = 3" by (cases col) auto
  then show ?thesis
    using color_line_1 color_line_2 color_line_3
    by (auto simp: color_line_def str_code flush_poly_def laser_line.simps split: option.splits)
qed

lemma laser_line_stop:
  "laser_line (Some c, cp, sc) ''STOP'' = (Some c, [], flush_poly (Some c) cp sc)"
proof -
  have "py_upper ''STOP'' = ''STOP''" by code_simp
  then show ?thesis by (simp add: startswith_def laser_line.simps)
qed

lemma laser_elem_lines:
  assumes "\<forall>p\<in>set (points e). exact_point p" "points e \<noteq> []"
  shows "foldl laser_line (c0, [], sc) (elem_lines e)
          = (Some (color (quantized e)), [], add_imported (quantized e) sc)"
  using assms
  by (simp add: elem_lines_def laser_line_color[OF refl] laser_lines_points laser_line_stop
      flush_poly_def quantized_def del: laser_line.simps)

lemma laser_all_lines:
  "\<forall>e\<in>set es. points e \<noteq> [] \<and> (\<forall>p\<in>set (points e). exact_point p) \<Longrightarrow>
   \<exists>c1. foldl laser_line (c0, [], sc) (concat (map elem_lines es))
          = (c1, [], foldl (\<lambda>s e. add_imported (quantized e) s) sc es)"
proof (induction es arbitrary: c0 sc)
  case Nil
  then show ?case by simp
next
  case (Cons e es)
  then have e: "\<forall>p\<in>set (points e). exact_point p" "points e \<noteq> []"
    and rest: "\<forall>e\<in>set es. points e \<noteq> [] \<and> (\<forall>p\<in>set (points e). exact_point p)"
    by auto
  from Cons.IH[OF rest] laser_elem_lines[OF e] show ?case by (simp del: laser_line.simps)
qed

lemma fold_add_imported:
  "store (foldl (\<lambda>s e. add_imported (f e) s) sc es) = store sc @ map f es
   \<and> elements (foldl (\<lambda>s e. add_imported (f e) s) sc es)
       = elements sc @ [length (store sc)..<length (store sc) + length es]"
  by (induction es rule: rev_induct) (simp_all add: add_imported_eq)

lemma map_nth_suffix: "map ((!) (h @ xs)) [length h..<length h + length xs] = xs"
  by (rule nth_equalityI) (simp_all add: nth_append)


lemma text_of_lines_Cons [simp]: "text_of_lines (l # ls) = l @ CHR 0x0A # text_of_lines ls"
  by (simp add: text_of_lines_def)

lemma text_of_lines_Nil [simp]: "text_of_lines [] = []"
  by (simp add: text_of_lines_def)

lemma text_of_lines_append [simp]:
  "text_of_lines (xs @ ys) = text_of_lines xs @ text_of_lines ys"
  by (simp add: text_of_lines_def)

lemma export_points_plain:
  "\<forall>p\<in>set ps. exact_point p \<Longrightarrow>
   export_points False gx gy ps = Inr (text_of_lines (map point_line ps))"
  by (induction ps) (simp_all add: export_point_def fmt_pair_exact)

lemma str_color_code: "py_str_int (color_to_code c) = Inr (str_int (color_to_code c))"
proof -
  have "color_to_code c = 1 \<or> color_to_code c = 2 \<or> color_to_code c = 3" by (cases c) auto
  then have "\<bar>color_to_code c\<bar> < float_limit" by (auto simp: float_limit_def)
  then show ?thesis by (rule py_str_int_in_range)
qed

lemma export_element_polyline:
  "kind e = ''polyline'' \<Longrightarrow> \<forall>p\<in>set (points e). exact_point p \<Longrightarrow>
   export_element cosf sinf s False g e = Inr (text_of_lines (elem_lines e))"
  by (simp add: export_element_def element_points_def export_points_plain elem_lines_def
      color_line_def str_color_code)

lemma export_elements_polylines:
  "\<forall>e\<in>set es. kind e = ''polyline'' \<and> (\<forall>p\<in>set (points e). exact_point p) \<Longrightarrow>
   export_elements cosf sinf s False g es = Inr (text_of_lines (concat (map elem_lines es)))"
  by (induction es) (simp_all add: export_element_polyline)

lemma read_lines_line:
  "\<forall>c\<in>set l. c \<noteq> CHR 0x0A \<and> c \<noteq> CHR 0x0D \<Longrightarrow>
   read_lines cur (l @ CHR 0x0A # rest) = (cur @ l @ [CHR 0x0A]) # read_lines [] rest"
  by (induction l arbitrary: cur) simp_all

lemma readlines_text:
  "\<forall>l\<in>set ls. clean_line l \<Longrightarrow>
   py_readlines (text_of_lines ls) = map (\<lambda>l. l @ [CHR 0x0A]) ls"
  unfolding py_readlines_def
  by (induction ls) (simp_all add: read_lines_line clean_line_def)

lemma py_strip_line: "clean_line l \<Longrightarrow> py_strip (l @ [CHR 0x0A]) = l"
proof -
  assume c: "clean_line l"
  have nl: "py_isspace CHR 0x0A" by (simp add: py_isspace_def)
  from c have "dropWhile py_isspace (l @ [CHR 0x0A]) = l @ [CHR 0x0A]"
    by (cases l) (simp_all add: clean_line_def)
  moreover from c have "dropWhile py_isspace (rev l) = rev l"
    by (intro dropWhile_id) (simp add: clean_line_def hd_rev)
  ultimately show ?thesis using nl by (simp add: py_strip_def)
qed

lemma strip_readlines_text:
  "\<forall>l\<in>set ls. clean_line l \<Longrightarrow> map py_strip (py_readlines (text_of_lines ls)) = ls"
  by (simp add: readlines_text py_strip_line map_idI)

lemma clean_point_line: "clean_line (point_line p)"
  using point_line_shape[of p] numchar_facts by (auto simp: clean_line_def)

lemma clean_color_line: "clean_line (color_line k)"
proof -
  have "\<not> py_isspace CHR ''C''" by (simp add: py_isspace_def)
  moreover have "\<forall>c\<in>set ''COLOR ''. c \<noteq> CHR 0x0A \<and> c \<noteq> CHR 0x0D" by simp
  ultimately show ?thesis
    using str_int_chars[of k] numchar_facts
    by (auto simp: clean_line_def color_line_def)
qed

lemma clean_stop: "clean_line ''STOP''"
  by (simp add: clean_line_def py_isspace_def)

lemma clean_elem_lines: "\<forall>l\<in>set (concat (map elem_lines es)). clean_line l"
  by (auto simp: elem_lines_def clean_point_line clean_color_line clean_stop)

text \<open>
  Claim C1. For every document whose elements are all polylines with at least two
  points, export with normalize off succeeds, and importing the text it wrote gives as
  many elements, all polylines, with the same point sequences in the same order and
  colours with the same 3-way code. The coordinates are taken to be ints that a double
  holds (\<open>exact_point\<close>): the import reads every coordinate with \<open>int(float(...))\<close>. This
  is what the program stores: a click is clamped to the grid, and a table edit and both
  imports store what \<open>int(float(...))\<close> returned; \<open>window_session_exact\<close> below proves it
  for every session of the window, \<open>grid_point_exact\<close> for every point of a grid, and
  \<open>laser_roundtrip_only_exact\<close> that no other point comes back from an import.
\<close>

theorem laser_roundtrip:
  assumes "\<forall>r\<in>set (elements sc). kind (store sc ! r) = ''polyline''
              \<and> 2 \<le> length (points (store sc ! r))
              \<and> (\<forall>p\<in>set (points (store sc ! r)). exact_point p)"
  shows "\<exists>out. export_laser_format cosf sinf s False g sc = Inr out
           \<and> length (elements (import_laser_format h gs cs out)) = length (elements sc)
           \<and> map (\<lambda>r. points (store (import_laser_format h gs cs out) ! r))
                 (elements (import_laser_format h gs cs out))
               = map (\<lambda>r. points (store sc ! r)) (elements sc)
           \<and> map (\<lambda>r. color_to_code (color (store (import_laser_format h gs cs out) ! r)))
                 (elements (import_laser_format h gs cs out))
               = map (\<lambda>r. color_to_code (color (store sc ! r))) (elements sc)
           \<and> (\<forall>r\<in>set (elements (import_laser_format h gs cs out)).
                 kind (store (import_laser_format h gs cs out) ! r) = ''polyline'')"
proof -
  define es where "es = map ((!) (store sc)) (elements sc)"
  define out where "out = text_of_lines (concat (map elem_lines es))"
  define sc' where "sc' = import_laser_format h gs cs out"
  from assms have poly: "\<forall>e\<in>set es. kind e = ''polyline'' \<and> (\<forall>p\<in>set (points e). exact_point p)"
    and ok: "\<forall>e\<in>set es. points e \<noteq> [] \<and> (\<forall>p\<in>set (points e). exact_point p)"
    by (auto simp: es_def)
  have ex: "export_laser_format cosf sinf s False g sc = Inr out"
    using export_elements_polylines[OF poly] by (simp add: export_laser_format_def es_def out_def)
  have lines: "map py_strip (py_readlines out) = concat (map elem_lines es)"
    unfolding out_def by (rule strip_readlines_text[OF clean_elem_lines])
  from laser_all_lines[OF ok, of None "new_SceneTab h gs cs"] obtain c1 where
    "foldl laser_line (None, [], new_SceneTab h gs cs) (concat (map elem_lines es))
       = (c1, [], foldl (\<lambda>s e. add_imported (quantized e) s) (new_SceneTab h gs cs) es)" ..
  then have imp: "sc' = foldl (\<lambda>s e. add_imported (quantized e) s) (new_SceneTab h gs cs) es"
    by (simp add: sc'_def import_laser_format_def lines laser_finish_def flush_poly_def
        split: option.splits)
  from fold_add_imported[of quantized "new_SceneTab h gs cs" es]
  have st: "store sc' = h @ map quantized es"
    and el: "elements sc' = [length h..<length h + length es]"
    by (simp_all add: imp new_SceneTab_def)
  have data: "map ((!) (store sc')) (elements sc') = map quantized es"
    using map_nth_suffix[of h "map quantized es"] by (simp add: st el)
  have len: "length (elements sc') = length (elements sc)"
    by (simp add: el es_def)
  have "map (\<lambda>r. points (store sc' ! r)) (elements sc') = map points (map ((!) (store sc')) (elements sc'))"
    by simp
  also have "\<dots> = map points es" by (simp add: data quantized_def comp_def)
  finally have pts: "map (\<lambda>r. points (store sc' ! r)) (elements sc') = map (\<lambda>r. points (store sc ! r)) (elements sc)"
    by (simp add: es_def comp_def)
  have q: "color_to_code (color (quantized e)) = color_to_code (color e)" for e
    by (cases "color e") (auto simp: quantized_def code_to_color_def)
  have "map (\<lambda>r. color_to_code (color (store sc' ! r))) (elements sc')
          = map (\<lambda>e. color_to_code (color e)) (map ((!) (store sc')) (elements sc'))"
    by (simp add: comp_def)
  also have "\<dots> = map (\<lambda>e. color_to_code (color e)) es" by (simp add: data q comp_def)
  finally have cols: "map (\<lambda>r. color_to_code (color (store sc' ! r))) (elements sc')
          = map (\<lambda>r. color_to_code (color (store sc ! r))) (elements sc)"
    by (simp add: es_def comp_def)
  have kinds: "\<forall>r\<in>set (elements sc'). kind (store sc' ! r) = ''polyline''"
  proof
    fix r assume "r \<in> set (elements sc')"
    then have "store sc' ! r \<in> set (map ((!) (store sc')) (elements sc'))" by simp
    then show "kind (store sc' ! r) = ''polyline''"
      unfolding data by (auto simp: quantized_def)
  qed
  from ex len pts cols kinds show ?thesis unfolding sc'_def by blast
qed

theorem laser_roundtrip_witness:
  "elements tri_scene = [0]
   \<and> kind (store tri_scene ! 0) = ''polyline''
   \<and> points (store tri_scene ! 0) = [(0, 0), (10, 0), (10, 10)]
   \<and> export_laser_format (\<lambda>t. 1) (\<lambda>t. 0) 8 False 255 tri_scene
       = Inr (text_of_lines [''COLOR 1'', ''0,0'', ''10,0'', ''10,10'', ''STOP''])
   \<and> map (\<lambda>r. points (store (import_laser_format [] 255 1
            (text_of_lines [''COLOR 1'', ''0,0'', ''10,0'', ''10,10'', ''STOP''])) ! r))
       (elements (import_laser_format [] 255 1
            (text_of_lines [''COLOR 1'', ''0,0'', ''10,0'', ''10,10'', ''STOP''])))
     = [[(0, 0), (10, 0), (10, 10)]]
   \<and> elements wide_scene = [0]
   \<and> points (store wide_scene ! 0) = [(9007199254740994, 5), (10000000000000000000000, 2)]
   \<and> export_laser_format (\<lambda>t. 1) (\<lambda>t. 0) 8 False 255 wide_scene = Inr wide_text
   \<and> map (\<lambda>r. points (store (import_laser_format [] 255 1 wide_text) ! r))
       (elements (import_laser_format [] 255 1 wide_text))
     = [[(9007199254740994, 5), (10000000000000000000000, 2)]]"
proof -
  have sc: "elements tri_scene = [0]"
    "store tri_scene ! 0 = \<lparr>kind = ''polyline'', points = [(0, 0), (10, 0), (10, 10)],
                              color = (255, 0, 0), radius = 0\<rparr>"
    by (simp_all add: tri_scene_def commit_polyline_state
        append_temp_point_def new_SceneTab_def new_UndoManager_def)
  have hyp: "\<forall>r\<in>set (elements tri_scene). kind (store tri_scene ! r) = ''polyline''
              \<and> 2 \<le> length (points (store tri_scene ! r))
              \<and> (\<forall>p\<in>set (points (store tri_scene ! r)). exact_point p)"
    by (simp add: sc exact_point_def float_exact_small)
  have ex: "export_laser_format (\<lambda>t. 1) (\<lambda>t. 0) 8 False 255 tri_scene
       = Inr (text_of_lines [''COLOR 1'', ''0,0'', ''10,0'', ''10,10'', ''STOP''])"
    by code_simp
  have wd: "elements wide_scene = [0]"
    "store wide_scene ! 0 = \<lparr>kind = ''polyline'',
        points = [(9007199254740994, 5), (10000000000000000000000, 2)],
        color = (0, 255, 0), radius = 0\<rparr>"
    by code_simp+
  have e1: "exact_point (9007199254740994, 5)" by code_simp
  have e2: "exact_point (10000000000000000000000, 2)" by code_simp
  have hyp2: "\<forall>r\<in>set (elements wide_scene). kind (store wide_scene ! r) = ''polyline''
              \<and> 2 \<le> length (points (store wide_scene ! r))
              \<and> (\<forall>p\<in>set (points (store wide_scene ! r)). exact_point p)"
    using e1 e2 by (simp add: wd)
  have ex2: "export_laser_format (\<lambda>t. 1) (\<lambda>t. 0) 8 False 255 wide_scene = Inr wide_text"
    by code_simp
  from laser_roundtrip[OF hyp, of "\<lambda>t. 1" "\<lambda>t. 0" 8 255 "[]" 255 1]
       laser_roundtrip[OF hyp2, of "\<lambda>t. 1" "\<lambda>t. 0" 8 255 "[]" 255 1] ex ex2 sc wd
  show ?thesis by simp
qed

section \<open>Table edits\<close>


lemma mutate_point_cases:
  "mutate_point s r sub p = s
   \<or> (0 \<le> sub \<and> nat sub < length (points (store s ! r))
       \<and> mutate_point s r sub p = set_point s r (nat sub) p)"
  by (auto simp: mutate_point_def)

lemma table_edit_frame:
  fixes s m row col xi yi item
  defines "s' \<equiv> on_table_item_changed s m row col xi yi item"
  shows "s' = s\<lparr>store := store s'\<rparr>"
    and "length (store s') = length (store s)"
    and "s' = s
         \<or> (\<exists>r i xt yt x y. (col = 4 \<or> col = 5) \<and> xi = Some xt \<and> yi = Some yt
               \<and> int_float_str xt = Inr x \<and> int_float_str yt = Inr y
               \<and> r \<in> set (elements s) \<and> i < length (points (store s ! r))
               \<and> s' = set_point s r i (clamp_grid (grid_size s) x, clamp_grid (grid_size s) y))
         \<or> (\<exists>r v. col = 6 \<and> int_float_str item = Inr v \<and> r \<in> set (elements s)
               \<and> kind (store s ! r) = ''circle'' \<and> s' = set_radius s r (max 0 v))"
proof -
  show "s' = s\<lparr>store := store s'\<rparr>"
    by (auto simp: s'_def on_table_item_changed_def Let_def mutate_point_def mutate_radius_def
        set_point_def set_radius_def split: option.splits sum.splits)
  show "length (store s') = length (store s)"
    by (auto simp: s'_def on_table_item_changed_def Let_def mutate_point_def mutate_radius_def
        set_point_def set_radius_def split: option.splits sum.splits)
  show "s' = s
         \<or> (\<exists>r i xt yt x y. (col = 4 \<or> col = 5) \<and> xi = Some xt \<and> yi = Some yt
               \<and> int_float_str xt = Inr x \<and> int_float_str yt = Inr y
               \<and> r \<in> set (elements s) \<and> i < length (points (store s ! r))
               \<and> s' = set_point s r i (clamp_grid (grid_size s) x, clamp_grid (grid_size s) y))
         \<or> (\<exists>r v. col = 6 \<and> int_float_str item = Inr v \<and> r \<in> set (elements s)
               \<and> kind (store s ! r) = ''circle'' \<and> s' = set_radius s r (max 0 v))"
  proof (cases "row < 0 \<or> row \<ge> int (length m) \<or> fst (m ! nat row) < 0
                 \<or> fst (m ! nat row) \<ge> int (length (elements s))")
    case True
    then show ?thesis by (auto simp: s'_def on_table_item_changed_def Let_def)
  next
    case False
    define r where "r = elements s ! nat (fst (m ! nat row))"
    from False have "nat (fst (m ! nat row)) < length (elements s)" by linarith
    then have rin: "r \<in> set (elements s)" by (simp add: r_def)
    show ?thesis
    proof (cases "col = 4 \<or> col = 5")
      case True
      show ?thesis
      proof (cases "\<exists>xt yt x y. xi = Some xt \<and> yi = Some yt \<and> int_float_str xt = Inr x
                      \<and> int_float_str yt = Inr y")
        case True
        then obtain xt yt x y where p: "xi = Some xt" "yi = Some yt" "int_float_str xt = Inr x"
          "int_float_str yt = Inr y" by blast
        with False \<open>col = 4 \<or> col = 5\<close> have
          "s' = mutate_point s r (snd (m ! nat row))
                  (clamp_grid (grid_size s) x, clamp_grid (grid_size s) y)"
          by (auto simp: s'_def on_table_item_changed_def Let_def r_def)
        with mutate_point_cases[of s r "snd (m ! nat row)"
              "(clamp_grid (grid_size s) x, clamp_grid (grid_size s) y)"] p rin
          \<open>col = 4 \<or> col = 5\<close>
        show ?thesis by metis
      next
        case nf: False
        with False \<open>col = 4 \<or> col = 5\<close> have "s' = s"
          by (auto simp: s'_def on_table_item_changed_def Let_def split: option.splits sum.splits)
        then show ?thesis by simp
      qed
    next
      case ncol: False
      show ?thesis
      proof (cases "col = 6 \<and> kind (store s ! r) = ''circle'' \<and> (\<exists>v. int_float_str item = Inr v)")
        case True
        then obtain v where v: "int_float_str item = Inr v" by blast
        with True False ncol have "s' = set_radius s r (max 0 v)"
          by (auto simp: s'_def on_table_item_changed_def Let_def r_def mutate_radius_def)
        with True v rin show ?thesis by blast
      next
        case nr: False
        with False ncol have "s' = s"
          by (auto simp: s'_def on_table_item_changed_def Let_def r_def mutate_radius_def
              split: sum.splits)
        then show ?thesis by simp
      qed
    qed
  qed
qed



section \<open>Circles have one point\<close>

lemma doc_inv_new: "circ_ok h \<Longrightarrow> doc_inv (new_SceneTab h gs cs)"
  by (simp add: doc_inv_def refs_ok_def new_SceneTab_def new_UndoManager_def)

lemma doc_inv_add:
  assumes "doc_inv s" "kind e = ''circle'' \<longrightarrow> length (points e) = 1"
  shows "doc_inv (add_imported e s)"
  using assms by (auto simp: doc_inv_def refs_ok_def circ_ok_def add_imported_eq less_Suc_eq)

lemma doc_inv_fields:
  "doc_inv (s\<lparr>temp_points := t\<rparr>) = doc_inv s"
  "doc_inv (s\<lparr>circle_center := c\<rparr>) = doc_inv s"
  "doc_inv (s\<lparr>cc := col\<rparr>) = doc_inv s"
  by (simp_all add: doc_inv_def refs_ok_def)

lemma commit_polyline_add:
  "snd (commit_polyline s) = s \<or>
   snd (commit_polyline s) =
     (add_imported \<lparr>kind = ''polyline'', points = temp_points s, color = cc s, radius = 0\<rparr> s)
       \<lparr>temp_points := []\<rparr>"
  by (simp add: commit_polyline_state add_imported_eq)

lemma commit_circle_add:
  "snd (commit_circle_from_center s cen r) =
     (add_imported \<lparr>kind = ''circle'', points = [cen], color = cc s, radius = r\<rparr> s)
       \<lparr>circle_center := None\<rparr>"
  by (simp add: commit_circle_state add_imported_eq)

lemma doc_inv_remove:
  assumes "doc_inv s" "el < length (store s)"
  shows "doc_inv (remove_element s el)"
  using assms set_py_remove[of "store s" el "elements s"]
  by (auto simp: doc_inv_def refs_ok_def remove_element_def push_remove_def Let_def)

lemma doc_inv_undo: "doc_inv s \<Longrightarrow> doc_inv (undo s)"
proof -
  assume a: "doc_inv s"
  have l: "undo_list (undo_manager s) \<noteq> [] \<Longrightarrow> last (undo_list (undo_manager s)) \<in> set (undo_list (undo_manager s))"
    by simp
  have b: "set (butlast (undo_list (undo_manager s))) \<subseteq> set (undo_list (undo_manager s))"
    by (auto dest: in_set_butlastD)
  from a l b set_py_remove[of "store s" "snd (last (undo_list (undo_manager s)))" "elements s"]
  show ?thesis
    by (auto simp: doc_inv_def refs_ok_def undo_def um_undo_def Let_def)
qed

lemma doc_inv_redo: "doc_inv s \<Longrightarrow> doc_inv (redo s)"
proof -
  assume a: "doc_inv s"
  have l: "redo_list (undo_manager s) \<noteq> [] \<Longrightarrow> last (redo_list (undo_manager s)) \<in> set (redo_list (undo_manager s))"
    by simp
  have b: "set (butlast (redo_list (undo_manager s))) \<subseteq> set (redo_list (undo_manager s))"
    by (auto dest: in_set_butlastD)
  from a l b set_py_remove[of "store s" "snd (last (redo_list (undo_manager s)))" "elements s"]
  show ?thesis
    by (auto simp: doc_inv_def refs_ok_def redo_def um_redo_def Let_def)
qed

lemma circ_ok_update:
  assumes "circ_ok h" "kind e = kind (h ! r)" "length (points e) = length (points (h ! r))"
  shows "circ_ok (h[r := e])"
proof (cases "r < length h")
  case True
  with assms show ?thesis
    by (auto simp: circ_ok_def set_conv_nth nth_list_update)
next
  case False
  with assms show ?thesis by (simp add: list_update_beyond)
qed

lemma doc_inv_store_update:
  assumes "doc_inv s" "kind e = kind (store s ! r)"
    "length (points e) = length (points (store s ! r))"
  shows "doc_inv (s\<lparr>store := (store s)[r := e]\<rparr>)"
  using assms circ_ok_update[of "store s" e r]
  by (simp add: doc_inv_def refs_ok_def)

lemma doc_inv_table_item:
  assumes "doc_inv s"
  shows "doc_inv (on_table_item_changed s m row col xi yi item)"
proof -
  from table_edit_frame(3)[of s m row col xi yi item]
  consider "on_table_item_changed s m row col xi yi item = s"
    | r i p where "on_table_item_changed s m row col xi yi item = set_point s r i p"
    | r v where "on_table_item_changed s m row col xi yi item = set_radius s r v"
    by blast
  then show ?thesis
  proof cases
    case 1
    with assms show ?thesis by simp
  next
    case 2
    with doc_inv_store_update[OF assms, of "(store s ! r)\<lparr>points := (points (store s ! r))[i := p]\<rparr>" r]
    show ?thesis by (simp add: set_point_def)
  next
    case 3
    with doc_inv_store_update[OF assms, of "(store s ! r)\<lparr>radius := v\<rparr>" r]
    show ?thesis by (simp add: set_radius_def)
  qed
qed

lemma doc_inv_table_color:
  assumes "doc_inv s"
  shows "doc_inv (on_color_changed_in_table s m row idx)"
  using assms
    doc_inv_store_update[OF assms,
      of "(store s ! (elements s ! nat (fst (m ! nat row))))\<lparr>color := code_to_color (idx + 1)\<rparr>"
         "elements s ! nat (fst (m ! nat row))"]
  by (simp add: on_color_changed_in_table_def Let_def set_elem_color_def)

lemma doc_inv_flush: "doc_inv s \<Longrightarrow> doc_inv (flush_poly c cp s)"
  by (auto simp: flush_poly_def doc_inv_add split: option.splits)

lemma doc_inv_laser_line:
  "doc_inv (snd (snd st)) \<Longrightarrow> doc_inv (snd (snd (laser_line st l)))"
  by (cases st) (auto simp: laser_line.simps doc_inv_flush split: option.splits)

lemma doc_inv_laser_lines:
  "doc_inv (snd (snd st)) \<Longrightarrow> doc_inv (snd (snd (foldl laser_line st ls)))"
  by (induction ls arbitrary: st) (simp_all add: doc_inv_laser_line)

lemma doc_inv_import_laser:
  "circ_ok h \<Longrightarrow> doc_inv (import_laser_format h gs cs t)"
proof -
  assume "circ_ok h"
  then have "doc_inv (snd (snd (None :: rgb option, [] :: point list, new_SceneTab h gs cs)))"
    by (simp add: doc_inv_new)
  from doc_inv_laser_lines[OF this, of "map py_strip (py_readlines t)"]
  show ?thesis
    by (cases "foldl laser_line (None, [], new_SceneTab h gs cs) (map py_strip (py_readlines t))")
       (simp add: import_laser_format_def laser_finish_def doc_inv_flush)
qed

lemma doc_inv_csv_row:
  "doc_inv (snd (snd st)) \<Longrightarrow> doc_inv (snd (snd (snd (csv_row st r))))"
  by (cases st)
     (auto simp: csv_row_def polyline_row_def circle_row_def Let_def doc_inv_add
           split: sum.splits prod.splits if_splits)

lemma doc_inv_csv_loop:
  "doc_inv (snd (snd st)) \<Longrightarrow> doc_inv (snd (snd (snd (csv_loop st rs))))"
proof (induction rs arbitrary: st)
  case Nil
  then show ?case by simp
next
  case (Cons r rs)
  from doc_inv_csv_row[OF Cons.prems, of r] Cons.IH[of "snd (csv_row st r)"]
  show ?case by (auto split: prod.splits option.splits)
qed

lemma doc_inv_open_csv:
  "circ_ok h \<Longrightarrow> doc_inv (snd (open_csv h gs cs rows))"
proof -
  assume "circ_ok h"
  then have "doc_inv (snd (snd ([] :: point list, None :: rgb option, new_SceneTab h gs cs)))"
    by (simp add: doc_inv_new)
  from doc_inv_csv_loop[OF this, of rows]
  show ?thesis
    by (auto simp: open_csv_def doc_inv_add split: prod.splits option.splits)
qed

lemma doc_inv_act:
  assumes a: "doc_inv s"
  shows "doc_inv (act s a)"
proof (cases a)
  case (Edit c)
  show ?thesis
  proof (cases c)
    case (AppendTemp p)
    with a Edit show ?thesis by (simp add: append_temp_point_def doc_inv_fields)
  next
    case (SetColor col)
    with a Edit show ?thesis by (simp add: set_color_def doc_inv_fields)
  next
    case CommitPolyline
    with a Edit commit_polyline_add[of s] show ?thesis
      by (auto simp: doc_inv_fields doc_inv_add)
  next
    case (CommitCircle cen r)
    with a Edit show ?thesis by (simp add: commit_circle_add doc_inv_fields doc_inv_add)
  next
    case (RemoveElement el)
    with a Edit show ?thesis by (simp add: doc_inv_remove)
  qed
next
  case DoUndo
  with a show ?thesis by (simp add: doc_inv_undo)
next
  case DoRedo
  with a show ?thesis by (simp add: doc_inv_redo)
next
  case ClearAll
  with a show ?thesis
    by (simp add: clear_all_def doc_inv_def refs_ok_def new_UndoManager_def)
next
  case ClearTemporary
  with a show ?thesis
    by (simp add: clear_temporary_def doc_inv_def refs_ok_def)
next
  case (TableItemChanged m row col xi yi item)
  with a show ?thesis by (simp add: doc_inv_table_item)
next
  case (TableColorChanged m row idx)
  with a show ?thesis by (simp add: doc_inv_table_color)
next
  case (ImportLaser t)
  from a have "circ_ok (store s)" by (simp add: doc_inv_def)
  with ImportLaser show ?thesis by (simp add: doc_inv_import_laser)
next
  case (OpenCsv rows)
  from a have "circ_ok (store s)" by (simp add: doc_inv_def)
  with OpenCsv show ?thesis by (simp add: doc_inv_open_csv)
qed

lemma doc_inv_session: "doc_inv (session gs cs as)"
proof -
  have "doc_inv s \<Longrightarrow> doc_inv (foldl act s as)" for s
    by (induction as arbitrary: s) (simp_all add: doc_inv_act)
  moreover have "doc_inv (new_SceneTab [] gs cs)"
    by (simp add: doc_inv_new circ_ok_def)
  ultimately show ?thesis by (simp add: session_def)
qed

text \<open>
  Claim C10. In every document state reached from a new document by any sequence of user
  actions (drawing, colour choice, commits, removal, undo, redo, clearing, table edits,
  laser import and CSV import, also a CSV import that aborted), every element of the list
  whose kind is circle has a point list of length exactly 1.
\<close>

theorem circle_single_center:
  "\<forall>r\<in>set (elements (session gs cs as)).
     kind (store (session gs cs as) ! r) = ''circle'' \<longrightarrow>
       length (points (store (session gs cs as) ! r)) = 1"
  using doc_inv_session[of gs cs as]
  by (auto simp: doc_inv_def refs_ok_def circ_ok_def)

theorem circle_single_center_witness:
  "elements (session 255 1 circle_session) = [2]
   \<and> kind (store (session 255 1 circle_session) ! 2) = ''circle''
   \<and> points (store (session 255 1 circle_session) ! 2) = [(9, 9)]
   \<and> points (store (session 255 1 circle_session) ! 1) = [(255, 7)]
   \<and> length (points (store (session 255 1 circle_session) ! 2)) = 1"
proof -
  have a: "elements (session 255 1 circle_session) = [2]" by code_simp
  have b: "store (session 255 1 circle_session) ! 2
            = \<lparr>kind = ''circle'', points = [(9, 9)], color = (0, 0, 255), radius = 4\<rparr>"
    by code_simp
  have c: "points (store (session 255 1 circle_session) ! 1) = [(255, 7)]" by code_simp
  from circle_single_center[of 255 1 circle_session] a b c show ?thesis by simp
qed

section \<open>The documents of a window session\<close>

text \<open>
  Every coordinate that the window stores is an int that a double holds: a click is
  rounded from a double and clamped to the grid, a table edit stores the clamped result
  of \<open>int(float(...))\<close>, and both imports store what \<open>int(float(...))\<close> returned.
\<close>

lemma float_exact_zero [simp]: "float_exact 0"
  by (simp add: float_exact_small)

lemma grid_point_exact:
  "0 \<le> fst p \<Longrightarrow> fst p \<le> g \<Longrightarrow> 0 \<le> snd p \<Longrightarrow> snd p \<le> g \<Longrightarrow> g \<le> 2 ^ 53 \<Longrightarrow> exact_point p"
  by (simp add: exact_point_def float_exact_small)

lemma clamp_exact: "float_exact g \<Longrightarrow> float_exact x \<Longrightarrow> float_exact (clamp_grid g x)"
  by (simp add: clamp_grid_def max_def min_def)

lemma map_event_exact:
  assumes "float_exact (grid_size s)" "is_double (fst sp)" "is_double (snd sp)"
    "map_event_to_scene s sp = Inr p"
  shows "exact_point p"
proof -
  from assms(4) obtain x y where x: "py_round (fst sp) = Inr x" and y: "py_round (snd sp) = Inr y"
    and p: "p = (clamp_grid (grid_size s) x, clamp_grid (grid_size s) y)"
    by (auto simp: map_event_to_scene_def split: sum.splits)
  from double_round_exact[OF assms(2) x] double_round_exact[OF assms(3) y] assms(1)
  show ?thesis by (simp add: p exact_point_def clamp_exact)
qed

lemma exact_doc_cong:
  "grid_size s' = grid_size s \<Longrightarrow> store s' = store s \<Longrightarrow> temp_points s' = temp_points s \<Longrightarrow>
   circle_center s' = circle_center s \<Longrightarrow> exact_doc s' = exact_doc s"
  by (simp add: exact_doc_def)

lemma exact_doc_add:
  "exact_doc s \<Longrightarrow> list_all exact_point (points e) \<Longrightarrow> exact_doc (add_imported e s)"
  by (simp add: exact_doc_def add_imported_eq)

lemma exact_doc_new:
  "exact_doc s \<Longrightarrow> exact_doc (new_SceneTab (store s) (grid_size s) cs)"
  by (simp add: exact_doc_def new_SceneTab_def)

lemma remove_element_frame:
  "grid_size (remove_element s el) = grid_size s \<and> store (remove_element s el) = store s
   \<and> temp_points (remove_element s el) = temp_points s
   \<and> circle_center (remove_element s el) = circle_center s"
  by (simp add: remove_element_def Let_def)

lemma undo_frame:
  "grid_size (undo s) = grid_size s \<and> store (undo s) = store s
   \<and> temp_points (undo s) = temp_points s \<and> circle_center (undo s) = circle_center s"
  by (simp add: undo_def split: prod.splits)

lemma redo_frame:
  "grid_size (redo s) = grid_size s \<and> store (redo s) = store s
   \<and> temp_points (redo s) = temp_points s \<and> circle_center (redo s) = circle_center s"
  by (simp add: redo_def split: prod.splits)

lemma list_all_update:
  "list_all P xs \<Longrightarrow> P v \<Longrightarrow> list_all P (xs[i := v])"
  using set_update_subset_insert[of xs i v] by (auto simp: list_all_iff)

lemma exact_doc_set_point:
  assumes "exact_doc s" "exact_point p"
  shows "exact_doc (set_point s r i p)"
proof (cases "r < length (store s)")
  case True
  from assms(1) have "list_all (\<lambda>e. list_all exact_point (points e)) (store s)"
    by (simp add: exact_doc_def)
  with True have "list_all exact_point (points (store s ! r))" by (simp add: list_all_length)
  with assms(2) have "list_all exact_point ((points (store s ! r))[i := p])"
    by (simp add: list_all_update)
  with assms(1) show ?thesis by (simp add: exact_doc_def set_point_def list_all_update)
next
  case False
  with assms(1) show ?thesis by (simp add: exact_doc_def set_point_def list_update_beyond)
qed

lemma exact_doc_set_radius: "exact_doc s \<Longrightarrow> exact_doc (set_radius s r v)"
proof (cases "r < length (store s)")
  case True
  assume a: "exact_doc s"
  then have "list_all (\<lambda>e. list_all exact_point (points e)) (store s)" by (simp add: exact_doc_def)
  with True have "list_all exact_point (points (store s ! r))" by (simp add: list_all_length)
  with a show ?thesis by (simp add: exact_doc_def set_radius_def list_all_update)
next
  case False
  assume "exact_doc s"
  with False show ?thesis by (simp add: exact_doc_def set_radius_def list_update_beyond)
qed

lemma exact_doc_set_color: "exact_doc s \<Longrightarrow> exact_doc (set_elem_color s r c)"
proof (cases "r < length (store s)")
  case True
  assume a: "exact_doc s"
  then have "list_all (\<lambda>e. list_all exact_point (points e)) (store s)" by (simp add: exact_doc_def)
  with True have "list_all exact_point (points (store s ! r))" by (simp add: list_all_length)
  with a show ?thesis by (simp add: exact_doc_def set_elem_color_def list_all_update)
next
  case False
  assume "exact_doc s"
  with False show ?thesis by (simp add: exact_doc_def set_elem_color_def list_update_beyond)
qed

lemma exact_doc_table_item:
  assumes "exact_doc s"
  shows "exact_doc (on_table_item_changed s m row col xi yi item)"
proof -
  from assms have g: "float_exact (grid_size s)" by (simp add: exact_doc_def)
  from table_edit_frame(3)[of s m row col xi yi item]
  consider "on_table_item_changed s m row col xi yi item = s"
    | r i xt yt x y where "int_float_str xt = Inr x" "int_float_str yt = Inr y"
        "on_table_item_changed s m row col xi yi item
           = set_point s r i (clamp_grid (grid_size s) x, clamp_grid (grid_size s) y)"
    | r v where "on_table_item_changed s m row col xi yi item = set_radius s r (max 0 v)"
    by blast
  then show ?thesis
  proof cases
    case 1
    with assms show ?thesis by simp
  next
    case 2
    from int_float_str_exact[OF 2(1)] int_float_str_exact[OF 2(2)] g
    have "exact_point (clamp_grid (grid_size s) x, clamp_grid (grid_size s) y)"
      by (simp add: exact_point_def clamp_exact)
    with assms 2(3) show ?thesis by (simp add: exact_doc_set_point)
  next
    case 3
    with assms show ?thesis by (simp add: exact_doc_set_radius)
  qed
qed

lemma exact_doc_table_color:
  "exact_doc s \<Longrightarrow> exact_doc (on_color_changed_in_table s m row idx)"
  by (simp add: on_color_changed_in_table_def Let_def exact_doc_set_color)

lemma exact_doc_flush:
  "exact_doc s \<Longrightarrow> list_all exact_point cp \<Longrightarrow> exact_doc (flush_poly c cp s)"
  by (auto simp: flush_poly_def exact_doc_add split: option.splits)

lemma coord_line_exact: "coord_line l = Some p \<Longrightarrow> exact_point p"
  by (auto simp: coord_line_def exact_point_def int_float_str_exact
           split: list.splits sum.splits)

lemma exact_laser_line:
  assumes "list_all exact_point (fst (snd st))" "exact_doc (snd (snd st))"
  shows "list_all exact_point (fst (snd (laser_line st l))) \<and> exact_doc (snd (snd (laser_line st l)))"
proof -
  obtain c cp sc where st: "st = (c, cp, sc)" by (cases st)
  show ?thesis
    using assms coord_line_exact[of l]
    by (auto simp: st laser_line.simps exact_doc_flush split: option.splits)
qed

lemma exact_laser_lines:
  "list_all exact_point (fst (snd st)) \<Longrightarrow> exact_doc (snd (snd st)) \<Longrightarrow>
   list_all exact_point (fst (snd (foldl laser_line st ls)))
   \<and> exact_doc (snd (snd (foldl laser_line st ls)))"
proof (induction ls arbitrary: st)
  case Nil
  then show ?case by simp
next
  case (Cons l ls)
  from exact_laser_line[OF Cons.prems, of l] Cons.IH[of "laser_line st l"]
  show ?case by simp
qed

lemma exact_doc_import_laser:
  assumes "exact_doc s"
  shows "exact_doc (import_laser_format (store s) (grid_size s) cs t)"
proof -
  define st where "st = foldl laser_line (None, [], new_SceneTab (store s) (grid_size s) cs)
                          (map py_strip (py_readlines t))"
  from exact_laser_lines[of "(None, [], new_SceneTab (store s) (grid_size s) cs)"
         "map py_strip (py_readlines t)"] exact_doc_new[OF assms]
  have "list_all exact_point (fst (snd st))" "exact_doc (snd (snd st))" by (simp_all add: st_def)
  then show ?thesis
    by (cases st) (simp add: import_laser_format_def st_def[symmetric] laser_finish_def
          exact_doc_flush)
qed


lemma row_get_double:
  "list_all (\<lambda>kv. csv_double (snd kv)) r \<Longrightarrow> csv_double d \<Longrightarrow> csv_double (row_get r k d)"
proof -
  assume a: "list_all (\<lambda>kv. csv_double (snd kv)) r" "csv_double d"
  show ?thesis
  proof (cases "map_of r k")
    case None
    with a show ?thesis by (simp add: row_get_def)
  next
    case (Some v)
    then have "(k, v) \<in> set r" by (rule map_of_SomeD)
    with a(1) have "csv_double v" by (auto simp: list_all_iff)
    with Some show ?thesis by (simp add: row_get_def)
  qed
qed

lemma row_numbers_exact:
  assumes "list_all (\<lambda>kv. csv_double (snd kv)) r" "row_numbers r = Inr (x, y, rc, gc, bc)"
  shows "exact_point (x, y)"
proof -
  have d: "csv_double (row_get r ''x'' (PInt 0))" "csv_double (row_get r ''y'' (PInt 0))"
    using assms(1) by (simp_all add: row_get_double)
  from assms(2) have "int_float (row_get r ''x'' (PInt 0)) = Inr x"
    "int_float (row_get r ''y'' (PInt 0)) = Inr y"
    by (auto simp: row_numbers_def split: sum.splits)
  with d show ?thesis by (simp add: exact_point_def int_float_exact)
qed

lemma exact_polyline_row:
  assumes "list_all exact_point (fst st)" "exact_doc (snd (snd st))" "exact_point p"
  shows "list_all exact_point (fst (polyline_row st p col))
       \<and> exact_doc (snd (snd (polyline_row st p col)))"
proof -
  obtain poly c sc where st: "st = (poly, c, sc)" by (cases st)
  show ?thesis using assms
    by (auto simp: st polyline_row_def Let_def exact_doc_add split: prod.splits if_splits)
qed

lemma exact_circle_row:
  assumes "list_all exact_point (fst st)" "exact_doc (snd (snd st))" "exact_point p"
  shows "list_all exact_point (fst (snd (circle_row st p col rad)))
       \<and> exact_doc (snd (snd (snd (circle_row st p col rad))))"
proof -
  obtain poly c sc where st: "st = (poly, c, sc)" by (cases st)
  show ?thesis using assms
    by (auto simp: st circle_row_def Let_def exact_doc_add split: prod.splits if_splits sum.splits)
qed

lemma exact_csv_row:
  assumes "list_all exact_point (fst st)" "exact_doc (snd (snd st))"
    "list_all (\<lambda>kv. csv_double (snd kv)) r"
  shows "list_all exact_point (fst (snd (csv_row st r)))
       \<and> exact_doc (snd (snd (snd (csv_row st r))))"
proof (cases "row_numbers r")
  case (Inl e)
  with assms show ?thesis by (simp add: csv_row_def)
next
  case (Inr t)
  obtain x y rc gc bc where t: "t = (x, y, rc, gc, bc)" by (cases t)
  from row_numbers_exact[OF assms(3)] Inr t have p: "exact_point (x, y)" by simp
  from exact_polyline_row[OF assms(1,2) p] exact_circle_row[OF assms(1,2) p] assms(1,2) Inr t
  show ?thesis by (simp add: csv_row_def Let_def)
qed

lemma exact_csv_loop:
  "list_all exact_point (fst st) \<Longrightarrow> exact_doc (snd (snd st)) \<Longrightarrow>
   list_all (list_all (\<lambda>kv. csv_double (snd kv))) rs \<Longrightarrow>
   list_all exact_point (fst (snd (csv_loop st rs)))
   \<and> exact_doc (snd (snd (snd (csv_loop st rs))))"
proof (induction rs arbitrary: st)
  case Nil
  then show ?case by simp
next
  case (Cons r rs)
  from Cons.prems have r: "list_all (\<lambda>kv. csv_double (snd kv)) r"
    and rs: "list_all (list_all (\<lambda>kv. csv_double (snd kv))) rs" by simp_all
  from exact_csv_row[OF Cons.prems(1,2) r]
  have a: "list_all exact_point (fst (snd (csv_row st r)))"
    "exact_doc (snd (snd (snd (csv_row st r))))" by simp_all
  from Cons.IH[OF a rs] a show ?case by (auto split: prod.splits option.splits)
qed

lemma exact_doc_open_csv:
  assumes "exact_doc s" "list_all (list_all (\<lambda>kv. csv_double (snd kv))) rows"
  shows "exact_doc (snd (open_csv (store s) (grid_size s) cs rows))"
proof -
  define st where "st = csv_loop ([], None, new_SceneTab (store s) (grid_size s) cs) rows"
  from exact_csv_loop[of "([], None, new_SceneTab (store s) (grid_size s) cs)" rows]
       exact_doc_new[OF assms(1)] assms(2)
  have "list_all exact_point (fst (snd st))" "exact_doc (snd (snd (snd st)))"
    by (simp_all add: st_def)
  then show ?thesis
    by (auto simp: open_csv_def st_def[symmetric] exact_doc_add split: prod.splits option.splits)
qed

lemma exact_doc_commit_polyline: "exact_doc s \<Longrightarrow> exact_doc (snd (commit_polyline s))"
  by (simp add: commit_polyline_state exact_doc_def)

lemma exact_doc_commit_circle:
  "exact_doc s \<Longrightarrow> exact_point cen \<Longrightarrow> exact_doc (snd (commit_circle_from_center s cen r))"
  by (simp add: commit_circle_state exact_doc_def)

lemma exact_doc_press:
  assumes "exact_doc s" "is_double (fst sp)" "is_double (snd sp)"
  shows "exact_doc (snd (handle_left_press hypotf s sp))"
proof (cases "map_event_to_scene s sp")
  case (Inl e)
  with assms show ?thesis by (simp add: handle_left_press_def)
next
  case (Inr p)
  from assms(1) have g: "float_exact (grid_size s)" by (simp add: exact_doc_def)
  from map_event_exact[OF g assms(2,3) Inr] have p: "exact_point p" .
  have a: "exact_doc (append_temp_point s p)"
    using assms(1) p by (simp add: exact_doc_def append_temp_point_def)
  have b: "exact_doc (s\<lparr>circle_center := Some p\<rparr>)"
    using assms(1) p by (simp add: exact_doc_def)
  have c: "circle_center s = Some c \<Longrightarrow> exact_doc (snd (commit_circle_from_center s c r))" for c r
    using assms(1) by (intro exact_doc_commit_circle) (simp_all add: exact_doc_def)
  show ?thesis
    using Inr a b c assms(1)
    by (auto simp: handle_left_press_def split: option.splits sum.splits)
qed

lemma exact_doc_act:
  assumes "exact_doc s" "window_event (Do a)"
  shows "exact_doc (act s a)"
proof (cases a)
  case (Edit c)
  show ?thesis
  proof (cases c)
    case (AppendTemp p)
    with assms Edit show ?thesis by simp
  next
    case (SetColor col)
    with assms Edit show ?thesis by (simp add: set_color_def exact_doc_def)
  next
    case CommitPolyline
    with assms Edit show ?thesis by (simp add: exact_doc_commit_polyline)
  next
    case (CommitCircle cen r)
    with assms Edit show ?thesis by simp
  next
    case (RemoveElement el)
    with assms Edit exact_doc_cong[of "remove_element s el" s] remove_element_frame[of s el]
    show ?thesis by simp
  qed
next
  case DoUndo
  with assms exact_doc_cong[of "undo s" s] undo_frame[of s] show ?thesis by simp
next
  case DoRedo
  with assms exact_doc_cong[of "redo s" s] redo_frame[of s] show ?thesis by simp
next
  case ClearAll
  with assms show ?thesis by (simp add: clear_all_def exact_doc_def)
next
  case ClearTemporary
  with assms show ?thesis by (simp add: clear_temporary_def exact_doc_def)
next
  case (TableItemChanged m row col xi yi item)
  with assms show ?thesis by (simp add: exact_doc_table_item)
next
  case (TableColorChanged m row idx)
  with assms show ?thesis by (simp add: exact_doc_table_color)
next
  case (ImportLaser t)
  with assms show ?thesis by (simp add: exact_doc_import_laser)
next
  case (OpenCsv rows)
  with assms show ?thesis by (simp add: exact_doc_open_csv)
qed

lemma exact_doc_event:
  assumes "exact_doc s" "window_event ev"
  shows "exact_doc (on_event hypotf s ev)"
proof (cases ev)
  case (LeftPress sp)
  with assms show ?thesis by (simp add: exact_doc_press)
next
  case (SetTool t)
  with assms show ?thesis by (simp add: set_tool_def exact_doc_def)
next
  case (ApplySettings g c)
  with assms have "\<bar>g\<bar> \<le> 2 ^ 53" by simp
  then have "float_exact g" by (rule float_exact_small)
  with assms ApplySettings show ?thesis by (simp add: exact_doc_def)
next
  case (Do a)
  with assms show ?thesis by (simp add: exact_doc_act)
qed

text \<open>The circle invariant and the references, through the events.\<close>

lemma doc_inv_press: "doc_inv s \<Longrightarrow> doc_inv (snd (handle_left_press hypotf s sp))"
proof -
  assume a: "doc_inv s"
  have c: "doc_inv (snd (commit_circle_from_center s c r))" for c r
    using a by (simp add: commit_circle_add doc_inv_fields doc_inv_add)
  show ?thesis
    using a c
    by (auto simp: handle_left_press_def append_temp_point_def doc_inv_fields
             split: option.splits sum.splits)
qed

lemma doc_inv_event: "doc_inv s \<Longrightarrow> doc_inv (on_event hypotf s ev)"
proof (cases ev)
  case (LeftPress sp)
  assume "doc_inv s"
  with LeftPress show ?thesis by (simp add: doc_inv_press)
next
  case (SetTool t)
  assume "doc_inv s"
  with SetTool show ?thesis by (simp add: set_tool_def doc_inv_def refs_ok_def)
next
  case (ApplySettings g c)
  assume "doc_inv s"
  with ApplySettings show ?thesis by (simp add: doc_inv_def refs_ok_def)
next
  case (Do a)
  assume "doc_inv s"
  with Do show ?thesis by (simp add: doc_inv_act)
qed

lemma window_session_inv:
  assumes "float_exact gs" "\<forall>ev\<in>set evs. window_event ev"
  shows "exact_doc (window_session hypotf gs cs evs) \<and> doc_inv (window_session hypotf gs cs evs)"
proof -
  have "exact_doc s \<and> doc_inv s \<Longrightarrow> \<forall>ev\<in>set evs. window_event ev \<Longrightarrow>
        exact_doc (foldl (on_event hypotf) s evs) \<and> doc_inv (foldl (on_event hypotf) s evs)" for s
    by (induction evs arbitrary: s) (simp_all add: exact_doc_event doc_inv_event)
  moreover have "exact_doc (new_SceneTab [] gs cs)"
    using assms(1) by (simp add: exact_doc_def new_SceneTab_def)
  moreover have "doc_inv (new_SceneTab [] gs cs)"
    by (rule doc_inv_new) (simp add: circ_ok_def)
  ultimately show ?thesis using assms(2) by (simp add: window_session_def)
qed

text \<open>In every session of the window, on a grid whose size a double holds (as every
  size from 1 to 255 is), the coordinates of the listed elements are ints that a double
  holds, and the document can be drawn.\<close>

lemma window_session_exact:
  assumes "float_exact gs" "\<forall>ev\<in>set evs. window_event ev"
    "r \<in> set (elements (window_session hypotf gs cs evs))"
    "p \<in> set (points (store (window_session hypotf gs cs evs) ! r))"
  shows "exact_point p"
proof -
  let ?s = "window_session hypotf gs cs evs"
  from window_session_inv[OF assms(1,2)] have e: "exact_doc ?s" and d: "doc_inv ?s" by simp_all
  from d assms(3) have "r < length (store ?s)" by (simp add: doc_inv_def refs_ok_def)
  with e have "list_all exact_point (points (store ?s ! r))"
    by (simp add: exact_doc_def list_all_length)
  with assms(4) show ?thesis by (simp add: list_all_iff)
qed

text \<open>The condition on the coordinates in the round trip is the one that the import
  forces: every point that an import lists is \<open>exact_point\<close>, so a document whose point
  sequences come back from an import has no other points.\<close>

lemma laser_import_exact:
  assumes "float_exact gs" "r \<in> set (elements (import_laser_format [] gs cs t))"
    "p \<in> set (points (store (import_laser_format [] gs cs t) ! r))"
  shows "exact_point p"
proof -
  have w: "window_session (\<lambda>a b. a) gs cs [Do (ImportLaser t)] = import_laser_format [] gs cs t"
    by (simp add: window_session_def new_SceneTab_def)
  have "\<forall>ev\<in>set [Do (ImportLaser t)]. window_event ev" by simp
  from window_session_exact[OF assms(1) this, of r "\<lambda>a b. a" cs p] assms(2,3) w
  show ?thesis by simp
qed

lemma laser_roundtrip_only_exact:
  assumes "float_exact gs"
    "map (\<lambda>r. points (store (import_laser_format [] gs cs out) ! r))
         (elements (import_laser_format [] gs cs out))
       = map (\<lambda>r. points (store sc ! r)) (elements sc)"
    "r \<in> set (elements sc)" "p \<in> set (points (store sc ! r))"
  shows "exact_point p"
proof -
  define im where "im = import_laser_format [] gs cs out"
  from assms(3) have "points (store sc ! r) \<in> (\<lambda>r. points (store sc ! r)) ` set (elements sc)"
    by (rule imageI)
  also have "\<dots> = set (map (\<lambda>r. points (store sc ! r)) (elements sc))" by simp
  also have "\<dots> = set (map (\<lambda>r. points (store im ! r)) (elements im))"
    using assms(2) by (simp only: im_def)
  also have "\<dots> = (\<lambda>r. points (store im ! r)) ` set (elements im)" by simp
  finally obtain r' where "r' \<in> set (elements im)"
    "points (store sc ! r) = points (store im ! r')" by (rule imageE)
  then have r': "r' \<in> set (elements (import_laser_format [] gs cs out))"
    "points (store (import_laser_format [] gs cs out) ! r') = points (store sc ! r)"
    by (simp_all add: im_def)
  with assms(4) laser_import_exact[OF assms(1) r'(1), of p] show ?thesis by simp
qed

lemma exact_in_range: "exact_point p \<Longrightarrow> in_range p"
  by (simp add: exact_point_def in_range_def float_exact_in_range)

lemma exact_doc_drawable:
  assumes "exact_doc s" "doc_inv s"
  shows "drawable s"
proof -
  have el: "element_in_range (store s ! r)" if "r \<in> set (elements s)" for r
  proof -
    from assms(2) that have "r < length (store s)" by (simp add: doc_inv_def refs_ok_def)
    with assms(1) have "list_all exact_point (points (store s ! r))"
      by (simp add: exact_doc_def list_all_length)
    then have "list_all in_range (points (store s ! r))"
      by (auto simp: list_all_iff exact_in_range)
    then show ?thesis by (cases "points (store s ! r)") (auto simp: element_in_range_def)
  qed
  from assms(1) have "list_all in_range (temp_points s)"
    by (auto simp: exact_doc_def list_all_iff exact_in_range)
  moreover from assms(1) have "case circle_center s of None \<Rightarrow> True | Some c \<Rightarrow> in_range c"
    by (auto simp: exact_doc_def exact_in_range split: option.splits)
  ultimately show ?thesis using el by (simp add: drawable_def list_all_iff)
qed

lemma window_session_drawable:
  assumes "float_exact gs" "\<forall>ev\<in>set evs. window_event ev"
  shows "drawable (window_session hypotf gs cs evs)"
    and "drawable (snd (commit_polyline (window_session hypotf gs cs evs)))"
proof -
  from window_session_inv[OF assms] show "drawable (window_session hypotf gs cs evs)"
    by (simp add: exact_doc_drawable)
  have "window_event (Do (Edit CommitPolyline))" by simp
  with assms(2) have "\<forall>ev\<in>set (evs @ [Do (Edit CommitPolyline)]). window_event ev" by simp
  from window_session_inv[OF assms(1) this, of hypotf cs]
  show "drawable (snd (commit_polyline (window_session hypotf gs cs evs)))"
    by (simp add: exact_doc_drawable window_session_def)
qed

section \<open>Circle rasterisation: the number of points\<close>

lemma round_ratio_not_nan: "round_ratio n d \<noteq> NaN"
  by (simp add: round_ratio_def Let_def)

lemma round_double_not_nan: "round_double q \<noteq> NaN"
  by (simp add: round_double_def round_ratio_not_nan)

lemma py_round_error: "f \<noteq> NaN \<Longrightarrow> py_round f = Inl e \<Longrightarrow> e = OverflowError"
  by (cases f) simp_all

lemma offset_coord_error: "offset_coord c r (Fin v) = Inl e \<Longrightarrow> e = OverflowError"
proof -
  assume a: "offset_coord c r (Fin v) = Inl e"
  show ?thesis
  proof (cases "py_float_of_int r")
    case (Inl e1)
    with a float_of_int_error[OF Inl] show ?thesis by (simp add: offset_coord_def)
  next
    case (Inr fr)
    from float_of_int_Inr[OF Inr] obtain b where b: "fr = Fin b" by blast
    show ?thesis
    proof (cases "py_float_of_int c")
      case (Inl e1)
      with a Inr float_of_int_error[OF Inl] show ?thesis by (simp add: offset_coord_def)
    next
      case fc: (Inr fc)
      from float_of_int_Inr[OF fc] obtain a' where a': "fc = Fin a'" by blast
      have "fadd (Fin a') (fmul (Fin b) (Fin v)) \<noteq> NaN"
        using round_double_not_nan[of "b * v"] round_double_not_nan
        by (cases "round_double (b * v)") simp_all
      with a Inr fc b a' show ?thesis by (auto simp: offset_coord_def dest: py_round_error)
    qed
  qed
qed

lemma circle_point_error:
  assumes "0 \<le> i" "i < s" "circle_point cosf sinf cen r s i = Inl e"
  shows "e = OverflowError"
proof -
  from truediv_unit[OF assms(1,2)] obtain q where q: "py_truediv i s = Inr (Fin q)" "\<bar>q\<bar> \<le> 1"
    by auto
  from angle_finite[OF q(2)] obtain t where t: "fmul (fmul (Fin 2) (Fin math_pi)) (Fin q) = Fin t"
    by auto
  from assms(3) q(1) t show ?thesis
    by (auto simp: circle_point_def split: sum.splits dest: offset_coord_error)
qed

lemma circle_loop_cases:
  "\<forall>i\<in>set idx. 0 \<le> i \<and> i < s \<Longrightarrow>
   (\<exists>pts. circle_loop cosf sinf cen r s idx acc = Inr pts
          \<and> length pts = length acc + length idx)
   \<or> circle_loop cosf sinf cen r s idx acc = Inl OverflowError"
proof (induction idx arbitrary: acc)
  case Nil
  then show ?case by simp
next
  case (Cons i idx)
  then have i: "0 \<le> i" "i < s" and rest: "\<forall>i\<in>set idx. 0 \<le> i \<and> i < s" by auto
  show ?case
  proof (cases "circle_point cosf sinf cen r s i")
    case (Inl e)
    with circle_point_error[OF i Inl] show ?thesis by simp
  next
    case (Inr p)
    with Cons.IH[OF rest, of "acc @ [p]"] show ?thesis by auto
  qed
qed

lemma offset_fitsD:
  "offset_fits c r \<Longrightarrow>
   \<exists>a b. py_float_of_int c = Inr (Fin a) \<and> py_float_of_int r = Inr (Fin b)
         \<and> \<bar>a\<bar> + \<bar>b\<bar> < of_int float_limit"
  by (cases "py_float_of_int c"; cases "py_float_of_int r")
     (auto simp: offset_fits_def split: pyfloat.splits)

lemma offset_coord_fits:
  assumes "offset_fits c r" "\<bar>v\<bar> \<le> 1"
  shows "\<exists>x. offset_coord c r (Fin v) = Inr x"
proof -
  from offset_fitsD[OF assms(1)] obtain a b where fc: "py_float_of_int c = Inr (Fin a)"
    and fr: "py_float_of_int r = Inr (Fin b)" and s: "\<bar>a\<bar> + \<bar>b\<bar> < of_int float_limit"
    by blast
  from float_of_int_Inr[OF fr] have rb: "round_ratio r 1 = Fin b" by simp
  have "\<bar>b * v\<bar> \<le> \<bar>b\<bar>"
    using mult_left_mono[of "\<bar>v\<bar>" 1 "\<bar>b\<bar>"] assms(2) by (simp add: abs_mult)
  from round_double_le[OF _ rb this] obtain p where p: "round_double (b * v) = Fin p" "\<bar>p\<bar> \<le> \<bar>b\<bar>"
    by auto
  have "\<bar>a + p\<bar> \<le> \<bar>a\<bar> + \<bar>p\<bar>" by (rule abs_triangle_ineq)
  with p(2) s have "\<bar>a + p\<bar> < of_int float_limit" by linarith
  then obtain z where "round_double (a + p) = Fin z"
    using round_double_finite_iff[of "a + p"] by blast
  with fc fr p show ?thesis by (simp add: offset_coord_def)
qed

lemma circle_point_fits:
  assumes "offset_fits (fst cen) r" "offset_fits (snd cen) r" "0 \<le> i" "i < s"
    "\<forall>t. \<bar>cosf t\<bar> \<le> 1" "\<forall>t. \<bar>sinf t\<bar> \<le> 1"
  shows "\<exists>p. circle_point cosf sinf cen r s i = Inr p"
proof -
  from truediv_unit[OF assms(3,4)] obtain q where q: "py_truediv i s = Inr (Fin q)" "\<bar>q\<bar> \<le> 1"
    by auto
  from angle_finite[OF q(2)] obtain t where t: "fmul (fmul (Fin 2) (Fin math_pi)) (Fin q) = Fin t"
    by auto
  from assms(5) have "\<bar>cosf t\<bar> \<le> 1" by simp
  from offset_coord_fits[OF assms(1) this] obtain x where
    x: "offset_coord (fst cen) r (Fin (cosf t)) = Inr x" by auto
  from assms(6) have "\<bar>sinf t\<bar> \<le> 1" by simp
  from offset_coord_fits[OF assms(2) this] obtain y where
    y: "offset_coord (snd cen) r (Fin (sinf t)) = Inr y" by auto
  from q t x y show ?thesis by (simp add: circle_point_def)
qed

lemma circle_loop_fits:
  assumes "offset_fits (fst cen) r" "offset_fits (snd cen) r"
    "\<forall>t. \<bar>cosf t\<bar> \<le> 1" "\<forall>t. \<bar>sinf t\<bar> \<le> 1"
  shows "\<forall>i\<in>set idx. 0 \<le> i \<and> i < s \<Longrightarrow>
         \<exists>pts. circle_loop cosf sinf cen r s idx acc = Inr pts
               \<and> length pts = length acc + length idx"
proof (induction idx arbitrary: acc)
  case Nil
  then show ?case by simp
next
  case (Cons i idx)
  then have "0 \<le> i" "i < s" by auto
  from circle_point_fits[OF assms(1,2) this assms(3,4)] obtain p where
    "circle_point cosf sinf cen r s i = Inr p" by auto
  moreover from Cons have "\<forall>i\<in>set idx. 0 \<le> i \<and> i < s" by simp
  from Cons.IH[OF this, of "acc @ [p]"] obtain pts where
    "circle_loop cosf sinf cen r s idx (acc @ [p]) = Inr pts"
    "length pts = length (acc @ [p]) + length idx" by auto
  ultimately show ?case by simp
qed

text \<open>The first pass of the loop converts the radius and both centre coordinates.\<close>

lemma offset_coord_overflow:
  "float_limit \<le> \<bar>r\<bar> \<or> float_limit \<le> \<bar>c\<bar> \<Longrightarrow> offset_coord c r v = Inl OverflowError"
  using float_of_int_overflow_iff[of r] float_of_int_overflow_iff[of c]
  by (auto simp: offset_coord_def split: sum.splits dest: float_of_int_error)

lemma first_point_overflow:
  assumes s: "0 < s"
    and big: "float_limit \<le> \<bar>r\<bar> \<or> float_limit \<le> \<bar>fst cen\<bar> \<or> float_limit \<le> \<bar>snd cen\<bar>"
  shows "circle_point cosf sinf cen r s 0 = Inl OverflowError"
proof -
  from s have q: "py_truediv 0 s = Inr (Fin 0)" by (simp add: py_truediv_def round_ratio_def)
  have "\<bar>2 * math_pi\<bar> \<le> 2 ^ 3" by (simp add: math_pi_def)
  from round_double_bound[OF _ this] obtain w where w: "round_double (2 * math_pi) = Fin w" by auto
  have z: "fmul (Fin w) (Fin 0) = Fin 0" by (simp add: round_double_def round_ratio_def)
  have t: "fmul (fmul (Fin 2) (Fin math_pi)) (Fin 0) = Fin 0" using w z by simp
  show ?thesis
  proof (cases "offset_coord (fst cen) r (Fin (cosf 0))")
    case (Inl e)
    with offset_coord_error[OF Inl] q t show ?thesis by (simp add: circle_point_def)
  next
    case (Inr x)
    with offset_coord_overflow[of r "fst cen" "Fin (cosf 0)"]
    have "\<not> (float_limit \<le> \<bar>r\<bar> \<or> float_limit \<le> \<bar>fst cen\<bar>)" by auto
    with big have "float_limit \<le> \<bar>snd cen\<bar>" by simp
    then have "offset_coord (snd cen) r (Fin (sinf 0)) = Inl OverflowError"
      by (simp add: offset_coord_overflow)
    with Inr q t show ?thesis by (simp add: circle_point_def)
  qed
qed

lemma upto_first: "0 < s \<Longrightarrow> [0..s - 1] = 0 # [1..s - 1]"
  by (subst upto.simps) simp

text \<open>Centres and radii whose magnitudes add up to at most \<open>2 ^ 1023\<close> fit.\<close>

lemma offset_fits_sum:
  assumes "\<bar>c\<bar> + \<bar>r\<bar> \<le> 2 ^ 1023"
  shows "offset_fits c r"
proof -
  define H :: int where "H = 2 ^ 1022"
  have hh: "(2::int) ^ 1023 = 2 * H" by (simp add: H_def)
  have lim: "(3 * 2 ^ 1022 :: rat) < of_int float_limit"
  proof -
    have "(3 * 2 ^ 1022 :: int) < float_limit" by (simp add: float_limit_def)
    then have "(of_int (3 * 2 ^ 1022) :: rat) < of_int float_limit" by (simp only: of_int_less_iff)
    then show ?thesis by simp
  qed
  have bound: "\<exists>v. py_float_of_int n = Inr (Fin v) \<and> \<bar>v\<bar> \<le> 2 ^ k"
    if "\<bar>n\<bar> \<le> 2 ^ k" "k \<le> 1023" for n k
  proof -
    from that(1) have "\<bar>n\<bar> \<le> 2 ^ k * 1" by simp
    from round_ratio_bound[OF _ that(2) this] show ?thesis by (auto simp: py_float_of_int_def)
  qed
  from assms have c1: "\<bar>c\<bar> \<le> 2 ^ 1023" and r1: "\<bar>r\<bar> \<le> 2 ^ 1023" by linarith+
  show ?thesis
  proof (cases "\<bar>c\<bar> \<le> H")
    case True
    then have "\<bar>c\<bar> \<le> 2 ^ 1022" by (simp add: H_def)
    from bound[OF this] obtain a where a: "py_float_of_int c = Inr (Fin a)" "\<bar>a\<bar> \<le> 2 ^ 1022"
      by auto
    from bound[OF r1] obtain b where b: "py_float_of_int r = Inr (Fin b)" "\<bar>b\<bar> \<le> 2 ^ 1023"
      by auto
    from a(2) b(2) have "\<bar>a\<bar> + \<bar>b\<bar> \<le> 3 * 2 ^ 1022" by simp
    with lim have "\<bar>a\<bar> + \<bar>b\<bar> < of_int float_limit" by linarith
    with a b show ?thesis by (simp add: offset_fits_def)
  next
    case False
    with assms hh have "\<bar>r\<bar> \<le> H" by linarith
    then have "\<bar>r\<bar> \<le> 2 ^ 1022" by (simp add: H_def)
    from bound[OF this] obtain b where b: "py_float_of_int r = Inr (Fin b)" "\<bar>b\<bar> \<le> 2 ^ 1022"
      by auto
    from bound[OF c1] obtain a where a: "py_float_of_int c = Inr (Fin a)" "\<bar>a\<bar> \<le> 2 ^ 1023"
      by auto
    from a(2) b(2) have "\<bar>a\<bar> + \<bar>b\<bar> \<le> 3 * 2 ^ 1022" by simp
    with lim have "\<bar>a\<bar> + \<bar>b\<bar> < of_int float_limit" by linarith
    with a b show ?thesis by (simp add: offset_fits_def)
  qed
qed

text \<open>
  Claim C7, as stated: for every centre, radius and step count, \<open>circle_to_points\<close>
  returns exactly \<open>s\<close> points when \<open>r > 0\<close> and \<open>s > 0\<close>. It fails for a radius beyond the
  range of a double: \<open>r * math.cos(t)\<close> converts \<open>r\<close> to float, and for \<open>r = 2 ^ 1024\<close> the
  conversion raises OverflowError, so no sequence is returned (whatever the cosine and
  sine are). A CSV import stores such a radius, read by \<open>int(radius)\<close>.
\<close>

theorem circle_to_points_overflow:
  "0 < huge \<and> circle_to_points (\<lambda>t. 1) (\<lambda>t. 0) (0, 0) huge 1 = Inl OverflowError"
proof -
  have h0: "0 < huge" by (simp add: huge_def)
  have "float_limit \<le> \<bar>huge\<bar>" by (simp add: float_limit_def huge_def)
  then have "circle_point (\<lambda>t. 1) (\<lambda>t. 0) (0, 0) huge 1 0 = Inl OverflowError"
    by (intro first_point_overflow) simp_all
  with h0 show ?thesis by (simp add: circle_to_points_def)
qed

text \<open>
  Claim C7, amended. \<open>circle_to_points\<close> returns the empty sequence when \<open>r \<le> 0\<close> or
  \<open>s \<le> 0\<close>. When \<open>r > 0\<close> and \<open>s > 0\<close> it either returns a sequence of exactly \<open>s\<close> points
  or raises OverflowError, and never returns a sequence of another length. It returns
  the \<open>s\<close> points whenever the radius and the centre coordinates convert to floats with
  \<open>|float(cx)| + float(r)\<close> and \<open>|float(cy)| + float(r)\<close> below \<open>float_limit\<close>, which is
  \<open>2 ^ 1024 - 2 ^ 970\<close> (cosine and sine returning values in \<open>[-1, 1]\<close>); by
  \<open>offset_fits_sum\<close> this holds when \<open>|cx| + r\<close> and \<open>|cy| + r\<close> are at most \<open>2 ^ 1023\<close>. It
  raises OverflowError whenever the radius or a centre coordinate is \<open>float_limit\<close> or
  more in magnitude.
\<close>

theorem circle_to_points_count:
  "(r \<le> 0 \<or> s \<le> 0 \<longrightarrow> circle_to_points cosf sinf cen r s = Inr [])
   \<and> (0 < r \<and> 0 < s \<longrightarrow>
        (\<exists>pts. circle_to_points cosf sinf cen r s = Inr pts \<and> int (length pts) = s)
        \<or> circle_to_points cosf sinf cen r s = Inl OverflowError)
   \<and> (0 < r \<and> 0 < s \<and> offset_fits (fst cen) r \<and> offset_fits (snd cen) r
        \<and> (\<forall>t. \<bar>cosf t\<bar> \<le> 1) \<and> (\<forall>t. \<bar>sinf t\<bar> \<le> 1) \<longrightarrow>
       (\<exists>pts. circle_to_points cosf sinf cen r s = Inr pts \<and> int (length pts) = s))
   \<and> (0 < r \<and> 0 < s
        \<and> (float_limit \<le> r \<or> float_limit \<le> \<bar>fst cen\<bar> \<or> float_limit \<le> \<bar>snd cen\<bar>) \<longrightarrow>
       circle_to_points cosf sinf cen r s = Inl OverflowError)"
proof (intro conjI impI)
  assume "r \<le> 0 \<or> s \<le> 0"
  then show "circle_to_points cosf sinf cen r s = Inr []"
    by (simp add: circle_to_points_def)
next
  assume a: "0 < r \<and> 0 < s"
  have idx: "\<forall>i\<in>set [0..s - 1]. 0 \<le> i \<and> i < s" by auto
  from circle_loop_cases[OF idx, of cosf sinf cen r "[]"] a
  show "(\<exists>pts. circle_to_points cosf sinf cen r s = Inr pts \<and> int (length pts) = s)
        \<or> circle_to_points cosf sinf cen r s = Inl OverflowError"
    by (auto simp: circle_to_points_def)
next
  assume a: "0 < r \<and> 0 < s \<and> offset_fits (fst cen) r \<and> offset_fits (snd cen) r
        \<and> (\<forall>t. \<bar>cosf t\<bar> \<le> 1) \<and> (\<forall>t. \<bar>sinf t\<bar> \<le> 1)"
  have idx: "\<forall>i\<in>set [0..s - 1]. 0 \<le> i \<and> i < s" by auto
  from a circle_loop_fits[OF _ _ _ _ idx, of cen r cosf sinf "[]"] obtain pts where
    "circle_loop cosf sinf cen r s [0..s - 1] [] = Inr pts" "length pts = length [0..s - 1]"
    by auto
  with a show "\<exists>pts. circle_to_points cosf sinf cen r s = Inr pts \<and> int (length pts) = s"
    by (simp add: circle_to_points_def)
next
  assume a: "0 < r \<and> 0 < s
        \<and> (float_limit \<le> r \<or> float_limit \<le> \<bar>fst cen\<bar> \<or> float_limit \<le> \<bar>snd cen\<bar>)"
  then have "float_limit \<le> \<bar>r\<bar> \<or> float_limit \<le> \<bar>fst cen\<bar> \<or> float_limit \<le> \<bar>snd cen\<bar>" by auto
  from first_point_overflow[OF _ this, of s cosf sinf] a
  have "circle_point cosf sinf cen r s 0 = Inl OverflowError" by simp
  with a upto_first[of s] show "circle_to_points cosf sinf cen r s = Inl OverflowError"
    by (simp add: circle_to_points_def)
qed

theorem circle_to_points_count_witness:
  "(0::int) < 10 \<and> (0::int) < 4 \<and> offset_fits 100 10
   \<and> (\<exists>pts. circle_to_points (\<lambda>t. 1) (\<lambda>t. 0) (100, 100) 10 4 = Inr pts \<and> int (length pts) = 4)
   \<and> circle_to_points (\<lambda>t. 1) (\<lambda>t. 0) (100, 100) 0 4 = Inr []
   \<and> 0 < huge \<and> float_limit \<le> huge
   \<and> circle_to_points (\<lambda>t. 1) (\<lambda>t. 0) (100, 100) huge 4 = Inl OverflowError"
proof -
  have fs: "offset_fits 100 10" by (rule offset_fits_sum) simp
  have h: "0 < huge" "float_limit \<le> huge" by (simp_all add: huge_def float_limit_def)
  from circle_to_points_count[of 10 4 "\<lambda>t. 1" "\<lambda>t. 0" "(100, 100)"]
       circle_to_points_count[of 0 4 "\<lambda>t. 1" "\<lambda>t. 0" "(100, 100)"]
       circle_to_points_count[of huge 4 "\<lambda>t. 1" "\<lambda>t. 0" "(100, 100)"] fs h
  show ?thesis by simp
qed

end
